theory Spec2Isabelle
  imports Complex_Main
begin

section \<open>JavaScript numbers\<close>

text \<open>
  A TypeScript \<open>number\<close> is modelled as an exact real or one of the three special values
  of IEEE arithmetic. Finite arithmetic is exact (no rounding error, no signed zero); the
  special values follow the ECMAScript rules, so that a division by zero or the
  \<open>Infinity\<close> sentinel of a degenerate cell behaves as in the source. Values that the
  source only ever uses as integers (loop counters, grid dimensions, cell counts, pixel
  bytes) are \<open>int\<close> or \<open>nat\<close>.

  The source rounds every finite result to a double where the model keeps the exact real.
  The two differ by a rounding error, which a floor or a comparison can turn into a
  different outcome: the luminance of the colour \<open>(128, 128, 128)\<close> is
  \<open>127.99999999999999\<close> in the source and \<open>128\<close> here, and with 28 columns on a width of
  600 the left edge \<open>floor (21 * (600 / 28))\<close> is 449 in the source and 450 here. Likewise
  a decrement always lowers a finite number here, where in doubles it leaves a number of
  \<open>2^53\<close> or more unchanged. The statements below hold of the exact arithmetic; their
  examples are evaluated at inputs where the rounding does not change a floor or a
  comparison.
\<close>

datatype jsnum = Fin real | PInf | NInf | NaN

fun jneg :: "jsnum \<Rightarrow> jsnum" where
  "jneg (Fin a) = Fin (- a)"
| "jneg PInf = NInf"
| "jneg NInf = PInf"
| "jneg NaN = NaN"

fun jadd :: "jsnum \<Rightarrow> jsnum \<Rightarrow> jsnum" where
  "jadd (Fin a) (Fin b) = Fin (a + b)"
| "jadd (Fin a) PInf = PInf"
| "jadd (Fin a) NInf = NInf"
| "jadd PInf (Fin b) = PInf"
| "jadd PInf PInf = PInf"
| "jadd NInf (Fin b) = NInf"
| "jadd NInf NInf = NInf"
| "jadd PInf NInf = NaN"
| "jadd NInf PInf = NaN"
| "jadd NaN y = NaN"
| "jadd x NaN = NaN"

definition jsub :: "jsnum \<Rightarrow> jsnum \<Rightarrow> jsnum" where
  "jsub x y = jadd x (jneg y)"

text \<open>The infinity of the sign of a non-zero real; \<open>NaN\<close> for zero times infinity.\<close>

definition inf_of_sign :: "real \<Rightarrow> jsnum" where
  "inf_of_sign a = (if 0 < a then PInf else if a < 0 then NInf else NaN)"

fun jmul :: "jsnum \<Rightarrow> jsnum \<Rightarrow> jsnum" where
  "jmul (Fin a) (Fin b) = Fin (a * b)"
| "jmul (Fin a) PInf = inf_of_sign a"
| "jmul (Fin a) NInf = inf_of_sign (- a)"
| "jmul PInf (Fin b) = inf_of_sign b"
| "jmul NInf (Fin b) = inf_of_sign (- b)"
| "jmul PInf PInf = PInf"
| "jmul NInf NInf = PInf"
| "jmul PInf NInf = NInf"
| "jmul NInf PInf = NInf"
| "jmul NaN y = NaN"
| "jmul x NaN = NaN"

text \<open>
  Division. A zero divisor is the positive zero (every zero of the source is an integer
  zero), so \<open>a / 0\<close> is the infinity of the sign of \<open>a\<close> and \<open>0 / 0\<close> is \<open>NaN\<close>.
\<close>

fun jdiv :: "jsnum \<Rightarrow> jsnum \<Rightarrow> jsnum" where
  "jdiv (Fin a) (Fin b) = (if b = 0 then inf_of_sign a else Fin (a / b))"
| "jdiv (Fin a) PInf = Fin 0"
| "jdiv (Fin a) NInf = Fin 0"
| "jdiv PInf (Fin b) = (if 0 \<le> b then PInf else NInf)"
| "jdiv NInf (Fin b) = (if 0 \<le> b then NInf else PInf)"
| "jdiv PInf PInf = NaN"
| "jdiv PInf NInf = NaN"
| "jdiv NInf PInf = NaN"
| "jdiv NInf NInf = NaN"
| "jdiv NaN y = NaN"
| "jdiv x NaN = NaN"

text \<open>Comparisons: every comparison with \<open>NaN\<close> is false.\<close>

fun jlt :: "jsnum \<Rightarrow> jsnum \<Rightarrow> bool" where
  "jlt (Fin a) (Fin b) = (a < b)"
| "jlt (Fin a) PInf = True"
| "jlt NInf (Fin b) = True"
| "jlt NInf PInf = True"
| "jlt x y = False"

fun jle :: "jsnum \<Rightarrow> jsnum \<Rightarrow> bool" where
  "jle (Fin a) (Fin b) = (a \<le> b)"
| "jle (Fin a) PInf = True"
| "jle NInf (Fin b) = True"
| "jle NInf PInf = True"
| "jle PInf PInf = True"
| "jle NInf NInf = True"
| "jle x y = False"

definition jgt :: "jsnum \<Rightarrow> jsnum \<Rightarrow> bool" where
  "jgt x y = jlt y x"

definition jge :: "jsnum \<Rightarrow> jsnum \<Rightarrow> bool" where
  "jge x y = jle y x"

text \<open>\<open>Math.min\<close> and \<open>Math.max\<close> of two numbers: \<open>NaN\<close> if either is.\<close>

definition jmin :: "jsnum \<Rightarrow> jsnum \<Rightarrow> jsnum" where
  "jmin x y = (if x = NaN \<or> y = NaN then NaN else if jlt y x then y else x)"

definition jmax :: "jsnum \<Rightarrow> jsnum \<Rightarrow> jsnum" where
  "jmax x y = (if x = NaN \<or> y = NaN then NaN else if jlt x y then y else x)"

text \<open>\<open>Math.floor\<close>, and \<open>Math.round\<close>, which rounds a half towards \<open>+Infinity\<close>.\<close>

fun jfloor :: "jsnum \<Rightarrow> jsnum" where
  "jfloor (Fin a) = Fin (of_int \<lfloor>a\<rfloor>)"
| "jfloor x = x"

fun jround :: "jsnum \<Rightarrow> jsnum" where
  "jround (Fin a) = Fin (of_int \<lfloor>a + 1 / 2\<rfloor>)"
| "jround x = x"

text \<open>An integer of the source, used as a number.\<close>

definition jint :: "int \<Rightarrow> jsnum" where
  "jint i = Fin (of_int i)"

section \<open>Data model\<close>

text \<open>
  The structural types of the source. \<open>{rows, cols}\<close> is the type of \<open>gridConfig\<close> and of
  \<open>actualCells\<close>; \<open>ShapeToFind\<close> has the same two fields and a name.
\<close>

record RowsCols =
  rows :: int
  cols :: int

record ShapeToFind = RowsCols +
  name :: string

text \<open>A colour \<open>{r, g, b}\<close>; the fields are spelled out, since \<open>r\<close> is a loop counter.\<close>

record RGB =
  red :: jsnum
  green :: jsnum
  blue :: jsnum

section \<open>Shape candidate generator\<close>

text \<open>
  \<open>generateShapesToTest\<close>. The \<open>Map\<close> keyed by the string \<open>r + "x" + c\<close> is an association
  list in insertion order, keyed by the pair \<open>(r, c)\<close> (the decimal rendering of two
  integers around an \<open>x\<close> determines the pair). \<open>targetArea\<close>, \<open>maxRows\<close> and \<open>maxCols\<close>
  are integers; the model follows the source for \<open>targetArea \<ge> 0\<close> (the square root of a
  negative number is \<open>NaN\<close> in the source).
\<close>

type_synonym shape_map = "((int \<times> int) \<times> ShapeToFind) list"

definition shapeName :: "int \<Rightarrow> int \<Rightarrow> string" where
  "shapeName r c =
     (if real_of_int \<bar>r - c\<bar> \<le> max 1 (real_of_int (min r c) * 0.25) then ''square''
      else if real_of_int c > real_of_int r * 1.25 then ''landscape''
      else if real_of_int r > real_of_int c * 1.25 then ''portrait''
      else ''near-square'')"

definition addShape ::
  "int \<Rightarrow> int \<Rightarrow> int \<Rightarrow> string \<Rightarrow> int \<Rightarrow> int \<Rightarrow> shape_map \<Rightarrow> shape_map" where
  "addShape targetArea maxRows maxCols namePrefix r c shapes =
     (if r \<le> 0 \<or> c \<le> 0 \<or> r > maxRows \<or> c > maxCols
         \<or> real_of_int (r * c) < real_of_int targetArea * 0.8
      then shapes
      else if map_of shapes (r, c) = None
      then shapes @ [((r, c), \<lparr>rows = r, cols = c, name = shapeName r c\<rparr>)]
      else shapes)"

definition generateShapesToTest :: "int \<Rightarrow> int \<Rightarrow> int \<Rightarrow> ShapeToFind list" where
  "generateShapesToTest targetArea maxRows maxCols =
     (let add = addShape targetArea maxRows maxCols;
          r_s = max 1 (round (sqrt (real_of_int targetArea)));
          c_s = max 1 \<lceil>real_of_int targetArea / real_of_int r_s\<rceil>;
          shapes = add ''square_attempt1'' r_s c_s [];
          shapes = add ''square_attempt2'' c_s r_s shapes;
          r_ls = max 1 (round (sqrt (real_of_int targetArea / 1.8)));
          c_ls = max 1 \<lceil>real_of_int targetArea / real_of_int r_ls\<rceil>;
          c_ls = (if r_ls * c_ls < targetArea \<and> c_ls < maxCols then c_ls + 1 else c_ls);
          shapes = add ''landscape_attempt'' r_ls c_ls shapes;
          c_pt = max 1 (round (sqrt (real_of_int targetArea / 1.8)));
          r_pt = max 1 \<lceil>real_of_int targetArea / real_of_int c_pt\<rceil>;
          r_pt = (if r_pt * c_pt < targetArea \<and> r_pt < maxRows then r_pt + 1 else r_pt);
          shapes = add ''portrait_attempt'' r_pt c_pt shapes;
          shapes = (if targetArea \<le> maxCols
                    then add ''extreme_ls'' 1
                           (min maxCols (max targetArea \<lceil>real_of_int targetArea / 1\<rceil>)) shapes
                    else shapes);
          shapes = (if targetArea \<le> maxRows
                    then add ''extreme_pt''
                           (min maxRows (max targetArea \<lceil>real_of_int targetArea / 1\<rceil>)) 1 shapes
                    else shapes);
          shapes = add ''square_large1'' (r_s + 1) c_s shapes;
          shapes = add ''square_large2'' r_s (c_s + 1) shapes
      in map snd shapes)"

section \<open>Records of the analysis\<close>

text \<open>
  The remaining interfaces. Field names are those of the source, prefixed where the same
  name is also a local variable of the code (\<open>rect_x\<close> for \<open>rect.x\<close>, \<open>hover_stats\<close> for the
  \<open>stats\<close> of the hover data, \<open>img_width\<close> for \<open>imageData.width\<close>). \<open>FoundRectInfo\<close> carries
  the four pixel fields of a rectangle, so it extends \<open>Rect\<close>.
\<close>

record Rect =
  rect_x :: jsnum
  rect_y :: jsnum
  rect_width :: jsnum
  rect_height :: jsnum

record CellStat =
  avgColor :: RGB
  busyness :: jsnum

record FoundRectInfo = Rect +
  rectAvgColor :: RGB
  rStart :: int
  cStart :: int
  avgBusyness :: jsnum
  shape :: ShapeToFind

record AnalysisResult =
  rect :: Rect
  textColor :: string
  fontSize :: jsnum
  avgBackgroundColor :: RGB
  aspectRatioName :: "string option"
  actualCells :: RowsCols
  rectBusyness :: jsnum
  textContrastRatio :: jsnum

record AnalysisDataForHover =
  hover_stats :: "CellStat list"
  hover_gridConfig :: RowsCols
  hover_cellWidthPx :: jsnum
  hover_cellHeightPx :: jsnum
  hover_canvasWidth :: nat
  hover_canvasHeight :: nat

text \<open>
  \<open>ImageData\<close>: the byte array (red, green, blue, alpha per pixel, row by row) with its
  width and height.
\<close>

record ImageData =
  img_data :: "nat list"
  img_width :: nat
  img_height :: nat

record ImageAnalysisCoreResult =
  analysisResultData :: "AnalysisResult option"
  analysisDataForHover :: "AnalysisDataForHover option"

text \<open>
  The only exception the core can raise: reading a property of \<open>undefined\<close>, when an
  index into the cell statistics is out of range.
\<close>

datatype js_error = TypeError

section \<open>Colour and contrast\<close>

definition getLuminance :: "jsnum \<Rightarrow> jsnum \<Rightarrow> jsnum \<Rightarrow> jsnum" where
  "getLuminance cr cg cb =
     jadd (jadd (jmul (Fin 0.299) cr) (jmul (Fin 0.587) cg)) (jmul (Fin 0.114) cb)"

definition calculateContrastRatio :: "RGB \<Rightarrow> RGB \<Rightarrow> jsnum" where
  "calculateContrastRatio color1 color2 =
     (let lum1 = getLuminance (red color1) (green color1) (blue color1);
          lum2 = getLuminance (red color2) (green color2) (blue color2);
          lighterLum = jmax lum1 lum2;
          darkerLum = jmin lum1 lum2
      in jdiv (jadd lighterLum (jmul (Fin 0.05) (Fin 255)))
              (jadd darkerLum (jmul (Fin 0.05) (Fin 255))))"

section \<open>Grid statistics\<close>

text \<open>A read of the byte array; outside the array it is \<open>undefined\<close>, which is \<open>NaN\<close> in arithmetic.\<close>

definition pixelByte :: "nat list \<Rightarrow> int \<Rightarrow> jsnum" where
  "pixelByte data i = (if 0 \<le> i \<and> nat i < length data then Fin (real (data ! nat i)) else NaN)"

text \<open>
  The byte offsets \<open>i\<close> of the pixels of cell \<open>(r, c)\<close>, in the order of the two pixel loops,
  for finite cell sizes.
\<close>

definition cellPixels :: "nat \<Rightarrow> real \<Rightarrow> real \<Rightarrow> int \<Rightarrow> int \<Rightarrow> int list" where
  "cellPixels imgWidth cw ch r c =
     (let cellX = \<lfloor>of_int c * cw\<rfloor>; cellY = \<lfloor>of_int r * ch\<rfloor>;
          cCellWidth = \<lfloor>of_int (c + 1) * cw\<rfloor> - cellX;
          cCellHeight = \<lfloor>of_int (r + 1) * ch\<rfloor> - cellY
      in concat (map (\<lambda>y. map (\<lambda>x. (y * int imgWidth + x) * 4) [cellX .. cellX + cCellWidth - 1])
                     [cellY .. cellY + cCellHeight - 1]))"

definition emptyCellStat :: CellStat where
  "emptyCellStat = \<lparr>avgColor = \<lparr>red = Fin 0, green = Fin 0, blue = Fin 0\<rparr>, busyness = PInf\<rparr>"

text \<open>
  The body of the two grid loops: the statistics of cell \<open>(r, c)\<close>. With an infinite cell
  size (a grid dimension of zero) the bounds of the pixel loops are \<open>NaN\<close> or infinite and
  the loops run no iteration, which leaves the sentinel of an empty cell.
\<close>

definition computeCellStat :: "nat list \<Rightarrow> nat \<Rightarrow> jsnum \<Rightarrow> jsnum \<Rightarrow> int \<Rightarrow> int \<Rightarrow> CellStat" where
  "computeCellStat data imgWidth cellWidthPx cellHeightPx r c =
     (case (cellWidthPx, cellHeightPx) of
        (Fin cw, Fin ch) \<Rightarrow>
          (let idx = cellPixels imgWidth cw ch r c;
               sumR = foldl jadd (Fin 0) (map (\<lambda>i. pixelByte data i) idx);
               sumG = foldl jadd (Fin 0) (map (\<lambda>i. pixelByte data (i + 1)) idx);
               sumB = foldl jadd (Fin 0) (map (\<lambda>i. pixelByte data (i + 2)) idx);
               luminances = map (\<lambda>i. getLuminance (pixelByte data i) (pixelByte data (i + 1))
                                        (pixelByte data (i + 2))) idx;
               pCount = length idx
           in if pCount = 0 then emptyCellStat
              else
                (let avgR = jdiv sumR (Fin (real pCount));
                     avgG = jdiv sumG (Fin (real pCount));
                     avgB = jdiv sumB (Fin (real pCount));
                     avgL = jdiv (foldl (\<lambda>acc l. jadd acc l) (Fin 0) luminances) (Fin (real pCount));
                     busy = jdiv (foldl (\<lambda>acc l. jadd acc (jmul (jsub l avgL) (jsub l avgL)))
                                        (Fin 0) luminances) (Fin (real pCount))
                 in \<lparr>avgColor = \<lparr>red = avgR, green = avgG, blue = avgB\<rparr>, busyness = busy\<rparr>))
      | _ \<Rightarrow> emptyCellStat)"

definition computeCellStats :: "nat list \<Rightarrow> nat \<Rightarrow> jsnum \<Rightarrow> jsnum \<Rightarrow> RowsCols \<Rightarrow> CellStat list" where
  "computeCellStats data imgWidth cellWidthPx cellHeightPx gridCfg =
     concat (map (\<lambda>r. map (\<lambda>c. computeCellStat data imgWidth cellWidthPx cellHeightPx r c)
                            [0 .. cols gridCfg - 1])
                 [0 .. rows gridCfg - 1])"

section \<open>Rectangle search\<close>

text \<open>The cell indices of a rectangle, in the order of the two offset loops.\<close>

definition rectCellIndices :: "'a RowsCols_scheme \<Rightarrow> int \<Rightarrow> int \<Rightarrow> int \<Rightarrow> int list" where
  "rectCellIndices sh gridCols r0 c0 =
     concat (map (\<lambda>rOffset. map (\<lambda>cOffset. (r0 + rOffset) * gridCols + (c0 + cOffset))
                                  [0 .. cols sh - 1])
                 [0 .. rows sh - 1])"

text \<open>
  The two offset loops of \<open>findBestRectForGivenShape\<close>: busyness sum, the three colour
  sums and the cell count. A cell index outside the statistics raises.
\<close>

type_synonym rect_sums = "jsnum \<times> jsnum \<times> jsnum \<times> jsnum \<times> nat"

fun sumRectCells :: "CellStat list \<Rightarrow> int list \<Rightarrow> rect_sums \<Rightarrow> js_error + rect_sums" where
  "sumRectCells cellStats [] acc = Inr acc"
| "sumRectCells cellStats (i # rest) (busySum, sumR, sumG, sumB, pixelCount) =
     (if 0 \<le> i \<and> nat i < length cellStats
      then sumRectCells cellStats rest
             (jadd busySum (busyness (cellStats ! nat i)),
              jadd sumR (red (avgColor (cellStats ! nat i))),
              jadd sumG (green (avgColor (cellStats ! nat i))),
              jadd sumB (blue (avgColor (cellStats ! nat i))),
              pixelCount + 1)
      else Inl TypeError)"

definition makeRect ::
  "ShapeToFind \<Rightarrow> jsnum \<Rightarrow> jsnum \<Rightarrow> int \<Rightarrow> int \<Rightarrow> rect_sums \<Rightarrow> FoundRectInfo" where
  "makeRect sh cellWidthPx cellHeightPx r0 c0 tot =
     (case tot of (busySum, sumR, sumG, sumB, pixelCount) \<Rightarrow>
        \<lparr>rect_x = jfloor (jmul (jint c0) cellWidthPx),
         rect_y = jfloor (jmul (jint r0) cellHeightPx),
         rect_width = jfloor (jmul (jint (cols sh)) cellWidthPx),
         rect_height = jfloor (jmul (jint (rows sh)) cellHeightPx),
         rectAvgColor = \<lparr>red = jdiv sumR (Fin (real pixelCount)),
                         green = jdiv sumG (Fin (real pixelCount)),
                         blue = jdiv sumB (Fin (real pixelCount))\<rparr>,
         rStart = r0, cStart = c0,
         avgBusyness = jdiv busySum (Fin (real pixelCount)),
         shape = sh\<rparr>)"

text \<open>The body of the two position loops, on the pair \<open>(bestRect, minAvgBusyness)\<close>.\<close>

type_synonym search_state = "FoundRectInfo option \<times> jsnum"

definition tryPosition ::
  "ShapeToFind \<Rightarrow> CellStat list \<Rightarrow> RowsCols \<Rightarrow> jsnum \<Rightarrow> jsnum \<Rightarrow> int \<times> int
     \<Rightarrow> search_state \<Rightarrow> js_error + search_state" where
  "tryPosition sh cellStats gridCfg cellWidthPx cellHeightPx pos st =
     (case sumRectCells cellStats (rectCellIndices sh (cols gridCfg) (fst pos) (snd pos))
             (Fin 0, Fin 0, Fin 0, Fin 0, 0) of
        Inl e \<Rightarrow> Inl e
      | Inr tot \<Rightarrow>
          (case tot of (busySum, sumR, sumG, sumB, pixelCount) \<Rightarrow>
             if pixelCount = 0 then Inr st
             else
               (let avgBusynessForRect = jdiv busySum (Fin (real pixelCount))
                in if jlt avgBusynessForRect (snd st)
                   then Inr (Some (makeRect sh cellWidthPx cellHeightPx (fst pos) (snd pos) tot),
                             avgBusynessForRect)
                   else Inr st)))"

fun scanPositions ::
  "ShapeToFind \<Rightarrow> CellStat list \<Rightarrow> RowsCols \<Rightarrow> jsnum \<Rightarrow> jsnum \<Rightarrow> (int \<times> int) list
     \<Rightarrow> search_state \<Rightarrow> js_error + search_state" where
  "scanPositions sh cellStats gridCfg cellWidthPx cellHeightPx [] st = Inr st"
| "scanPositions sh cellStats gridCfg cellWidthPx cellHeightPx (pos # rest) st =
     (case tryPosition sh cellStats gridCfg cellWidthPx cellHeightPx pos st of
        Inl e \<Rightarrow> Inl e
      | Inr st' \<Rightarrow> scanPositions sh cellStats gridCfg cellWidthPx cellHeightPx rest st')"

text \<open>The top-left positions of a shape, row by row.\<close>

definition positionsToScan :: "'a RowsCols_scheme \<Rightarrow> RowsCols \<Rightarrow> int \<Rightarrow> (int \<times> int) list" where
  "positionsToScan sh gridCfg borderExclusion =
     (let maxRStart = rows gridCfg - rows sh - borderExclusion;
          maxCStart = cols gridCfg - cols sh - borderExclusion
      in concat (map (\<lambda>r0. map (\<lambda>c0. (r0, c0)) [borderExclusion .. maxCStart])
                     [borderExclusion .. maxRStart]))"

definition findBestRectForGivenShape ::
  "ShapeToFind \<Rightarrow> CellStat list \<Rightarrow> RowsCols \<Rightarrow> jsnum \<Rightarrow> jsnum \<Rightarrow> int
     \<Rightarrow> js_error + FoundRectInfo option" where
  "findBestRectForGivenShape shapeToFind cellStats currentGridConfig cellWidthPx cellHeightPx
       borderExclusion =
     (if rows shapeToFind + 2 * borderExclusion > rows currentGridConfig
         \<or> cols shapeToFind + 2 * borderExclusion > cols currentGridConfig
      then Inr None
      else
        (case scanPositions shapeToFind cellStats currentGridConfig cellWidthPx cellHeightPx
                (positionsToScan shapeToFind currentGridConfig borderExclusion) (None, PInf) of
           Inl e \<Rightarrow> Inl e
         | Inr st \<Rightarrow> Inr (fst st)))"

text \<open>The loop of \<open>analyzeImageCore\<close> over the shapes, on \<open>overallBestRect\<close>.\<close>

fun bestOverShapes ::
  "CellStat list \<Rightarrow> RowsCols \<Rightarrow> jsnum \<Rightarrow> jsnum \<Rightarrow> int \<Rightarrow> ShapeToFind list
     \<Rightarrow> FoundRectInfo option \<Rightarrow> js_error + FoundRectInfo option" where
  "bestOverShapes cellStats gridCfg cellWidthPx cellHeightPx borderExclusion [] overallBestRect =
     Inr overallBestRect"
| "bestOverShapes cellStats gridCfg cellWidthPx cellHeightPx borderExclusion (sh # rest)
       overallBestRect =
     (case findBestRectForGivenShape sh cellStats gridCfg cellWidthPx cellHeightPx
             borderExclusion of
        Inl e \<Rightarrow> Inl e
      | Inr None \<Rightarrow>
          bestOverShapes cellStats gridCfg cellWidthPx cellHeightPx borderExclusion rest
            overallBestRect
      | Inr (Some rectInfoForShape) \<Rightarrow>
          bestOverShapes cellStats gridCfg cellWidthPx cellHeightPx borderExclusion rest
            (case overallBestRect of
               None \<Rightarrow> Some rectInfoForShape
             | Some best \<Rightarrow>
                 if jlt (avgBusyness rectInfoForShape) (avgBusyness best)
                 then Some rectInfoForShape else Some best))"

section \<open>Strings and numbers\<close>

text \<open>
  Strings are lists of 8-bit characters. \<open>isWhitespace\<close> is the white space of \<open>trim\<close>,
  of \<open>parseInt\<close> and of \<open>\s\<close> within that range; \<open>isDigit\<close> is \<open>\d\<close>.
\<close>

definition isWhitespace :: "char \<Rightarrow> bool" where
  "isWhitespace ch = (of_char ch \<in> {9, 10, 11, 12, 13, 32, 160 :: nat})"

definition isDigit :: "char \<Rightarrow> bool" where
  "isDigit ch = (48 \<le> (of_char ch :: nat) \<and> (of_char ch :: nat) \<le> 57)"

definition digitValue :: "char \<Rightarrow> nat" where
  "digitValue ch = of_char ch - 48"

text \<open>The value of a hexadecimal digit, if it is one.\<close>

definition hexValue :: "char \<Rightarrow> nat option" where
  "hexValue ch =
     (let n = (of_char ch :: nat)
      in if 48 \<le> n \<and> n \<le> 57 then Some (n - 48)
         else if 65 \<le> n \<and> n \<le> 70 then Some (n - 55)
         else if 97 \<le> n \<and> n \<le> 102 then Some (n - 87)
         else None)"

text \<open>
  \<open>parseInt\<close> without a radix: leading white space and a sign are skipped, a prefix
  \<open>0x\<close> selects base 16, the longest prefix of digits is read and the rest is ignored;
  the result is \<open>NaN\<close> when there is no digit.
\<close>

definition parseInt :: "string \<Rightarrow> jsnum" where
  "parseInt s =
     (let s1 = dropWhile isWhitespace s;
          sgn = (if take 1 s1 = ''-'' then - 1 else (1 :: int));
          s2 = (if take 1 s1 = ''-'' \<or> take 1 s1 = ''+'' then drop 1 s1 else s1)
      in if take 2 s2 = ''0x'' \<or> take 2 s2 = ''0X''
         then (let ds = takeWhile (\<lambda>ch. hexValue ch \<noteq> None) (drop 2 s2)
               in if ds = [] then NaN
                  else jint (sgn * int (foldl (\<lambda>acc ch. 16 * acc + the (hexValue ch)) 0 ds)))
         else (let ds = takeWhile isDigit s2
               in if ds = [] then NaN
                  else jint (sgn * int (foldl (\<lambda>acc ch. 10 * acc + digitValue ch) 0 ds))))"

text \<open>The decimal rendering of an integer, as a template literal prints it.\<close>

fun showNat :: "nat \<Rightarrow> string" where
  "showNat n = (if n < 10 then [char_of (48 + n)] else showNat (n div 10) @ [char_of (48 + n mod 10)])"

definition showInt :: "int \<Rightarrow> string" where
  "showInt i = (if i < 0 then CHR ''-'' # showNat (nat (- i)) else showNat (nat i))"

text \<open>
  The rendering of a number that is the result of \<open>Math.round\<close>, hence an integer or a
  special value (integers below \<open>10^21\<close> print in full).
\<close>

fun roundedToString :: "jsnum \<Rightarrow> string" where
  "roundedToString (Fin a) = showInt \<lfloor>a\<rfloor>"
| "roundedToString PInf = ''Infinity''"
| "roundedToString NInf = ''-Infinity''"
| "roundedToString NaN = ''NaN''"

text \<open>
  The match of \<open>/rgb\((\d+),\s*(\d+),\s*(\d+)\)/\<close>: the three groups of the first position
  where the pattern matches. Every quantifier is followed by a character outside its
  class, so the greedy match is the only one.
\<close>

definition matchRgbAt :: "string \<Rightarrow> (string \<times> string \<times> string) option" where
  "matchRgbAt s =
     (if take 4 s \<noteq> ''rgb('' then None
      else
        (let s1 = drop 4 s; d1 = takeWhile isDigit s1; s2 = dropWhile isDigit s1
         in if d1 = [] \<or> take 1 s2 \<noteq> '','' then None
            else
              (let s3 = dropWhile isWhitespace (drop 1 s2);
                   d2 = takeWhile isDigit s3; s4 = dropWhile isDigit s3
               in if d2 = [] \<or> take 1 s4 \<noteq> '','' then None
                  else
                    (let s5 = dropWhile isWhitespace (drop 1 s4);
                         d3 = takeWhile isDigit s5; s6 = dropWhile isDigit s5
                     in if d3 = [] \<or> take 1 s6 \<noteq> '')'' then None
                        else Some (d1, d2, d3)))))"

fun matchRgb :: "string \<Rightarrow> (string \<times> string \<times> string) option" where
  "matchRgb [] = None"
| "matchRgb (ch # s) =
     (case matchRgbAt (ch # s) of Some m \<Rightarrow> Some m | None \<Rightarrow> matchRgb s)"

section \<open>Text colour and the analysis\<close>

definition blackOrWhite :: "RGB \<Rightarrow> string" where
  "blackOrWhite rectBgColor =
     (if jgt (getLuminance (red rectBgColor) (green rectBgColor) (blue rectBgColor)) (Fin 128)
      then ''black'' else ''white'')"

text \<open>
  The two offset loops of the text colour choice, on the pair
  \<open>(bestContrastCellColor, maxContrast)\<close>.
\<close>

fun bestContrastCell ::
  "CellStat list \<Rightarrow> RGB \<Rightarrow> int list \<Rightarrow> RGB option \<times> jsnum \<Rightarrow> js_error + (RGB option \<times> jsnum)" where
  "bestContrastCell cellStats rectBgColor [] st = Inr st"
| "bestContrastCell cellStats rectBgColor (i # rest) st =
     (if 0 \<le> i \<and> nat i < length cellStats
      then
        (let cellAvgColor = avgColor (cellStats ! nat i);
             contrast = calculateContrastRatio cellAvgColor rectBgColor
         in if jgt contrast (snd st)
            then bestContrastCell cellStats rectBgColor rest (Some cellAvgColor, contrast)
            else bestContrastCell cellStats rectBgColor rest st)
      else Inl TypeError)"

definition chooseTextColor ::
  "bool \<Rightarrow> CellStat list \<Rightarrow> RowsCols \<Rightarrow> FoundRectInfo \<Rightarrow> js_error + string" where
  "chooseTextColor useAverageCellColorForText cellStats gridCfg overallBestRect =
     (let rectBgColor = rectAvgColor overallBestRect
      in if useAverageCellColorForText
         then
           (case bestContrastCell cellStats rectBgColor
                   (rectCellIndices (shape overallBestRect) (cols gridCfg)
                      (rStart overallBestRect) (cStart overallBestRect))
                   (None, Fin 0) of
              Inl e \<Rightarrow> Inl e
            | Inr (bestContrastCellColor, maxContrast) \<Rightarrow>
                (case bestContrastCellColor of
                   Some cellColor \<Rightarrow>
                     if jgt maxContrast (Fin 2.5)
                     then Inr (''rgb('' @ roundedToString (jround (red cellColor)) @ '', ''
                                 @ roundedToString (jround (green cellColor)) @ '', ''
                                 @ roundedToString (jround (blue cellColor)) @ '')'')
                     else Inr (blackOrWhite rectBgColor)
                 | None \<Rightarrow> Inr (blackOrWhite rectBgColor)))
         else Inr (blackOrWhite rectBgColor))"

definition textColorObject :: "string \<Rightarrow> RGB" where
  "textColorObject chosenTextColor =
     (if chosenTextColor = ''black'' then \<lparr>red = Fin 0, green = Fin 0, blue = Fin 0\<rparr>
      else if chosenTextColor = ''white'' then \<lparr>red = Fin 255, green = Fin 255, blue = Fin 255\<rparr>
      else
        (case matchRgb chosenTextColor of
           Some (m1, m2, m3) \<Rightarrow> \<lparr>red = parseInt m1, green = parseInt m2, blue = parseInt m3\<rparr>
         | None \<Rightarrow> \<lparr>red = Fin 0, green = Fin 0, blue = Fin 0\<rparr>))"

definition makeAnalysisResult :: "FoundRectInfo \<Rightarrow> string \<Rightarrow> AnalysisResult" where
  "makeAnalysisResult overallBestRect chosenTextColor =
     (let rectBgColor = rectAvgColor overallBestRect;
          contrast = calculateContrastRatio (textColorObject chosenTextColor) rectBgColor;
          singleCellHeightInRect =
            jdiv (rect_height overallBestRect) (jint (rows (shape overallBestRect)));
          suggested = jmax (Fin 12)
                        (jmin (jmin (jmul singleCellHeightInRect (Fin 0.6))
                                    (jmul (rect_height overallBestRect) (Fin 0.3)))
                              (jmul (rect_width overallBestRect) (Fin 0.2)))
      in \<lparr>rect = \<lparr>rect_x = rect_x overallBestRect, rect_y = rect_y overallBestRect,
                  rect_width = rect_width overallBestRect,
                  rect_height = rect_height overallBestRect\<rparr>,
          textColor = chosenTextColor, fontSize = suggested, avgBackgroundColor = rectBgColor,
          aspectRatioName = Some (name (shape overallBestRect)),
          actualCells = \<lparr>rows = rows (shape overallBestRect), cols = cols (shape overallBestRect)\<rparr>,
          rectBusyness = avgBusyness overallBestRect, textContrastRatio = contrast\<rparr>)"

text \<open>
  \<open>analyzeImageCore\<close>, on the five fields of its parameter object. The two \<open>showError\<close>
  notifications do not change the returned value and are left out.
\<close>

definition analyzeImageCore ::
  "ImageData \<Rightarrow> RowsCols \<Rightarrow> int \<Rightarrow> bool \<Rightarrow> int \<Rightarrow> js_error + ImageAnalysisCoreResult" where
  "analyzeImageCore imageData gridConfig targetAreaValue useAverageCellColorForText
       borderExclusionCells =
     (let data = img_data imageData; imgWidth = img_width imageData;
          imgHeight = img_height imageData
      in if imgWidth = 0 \<or> imgHeight = 0
         then Inr \<lparr>analysisResultData = None, analysisDataForHover = None\<rparr>
         else
           (let cellWidthPx = jdiv (Fin (real imgWidth)) (jint (cols gridConfig));
                cellHeightPx = jdiv (Fin (real imgHeight)) (jint (rows gridConfig));
                currentCellStats = computeCellStats data imgWidth cellWidthPx cellHeightPx gridConfig;
                hoverData = \<lparr>hover_stats = currentCellStats, hover_gridConfig = gridConfig,
                             hover_cellWidthPx = cellWidthPx, hover_cellHeightPx = cellHeightPx,
                             hover_canvasWidth = imgWidth, hover_canvasHeight = imgHeight\<rparr>;
                effectiveMaxRows = rows gridConfig - 2 * borderExclusionCells;
                effectiveMaxCols = cols gridConfig - 2 * borderExclusionCells;
                shapesToTest = generateShapesToTest targetAreaValue effectiveMaxRows effectiveMaxCols
            in if length shapesToTest = 0
               then Inr \<lparr>analysisResultData = None, analysisDataForHover = Some hoverData\<rparr>
               else
                 (case bestOverShapes currentCellStats gridConfig cellWidthPx cellHeightPx
                         borderExclusionCells shapesToTest None of
                    Inl e \<Rightarrow> Inl e
                  | Inr None \<Rightarrow>
                      Inr \<lparr>analysisResultData = None, analysisDataForHover = Some hoverData\<rparr>
                  | Inr (Some overallBestRect) \<Rightarrow>
                      (case chooseTextColor useAverageCellColorForText currentCellStats gridConfig
                              overallBestRect of
                         Inl e \<Rightarrow> Inl e
                       | Inr chosenTextColor \<Rightarrow>
                           Inr \<lparr>analysisResultData =
                                  Some (makeAnalysisResult overallBestRect chosenTextColor),
                                analysisDataForHover = Some hoverData\<rparr>))))"

section \<open>Text layout\<close>

definition TEXT_PADDING :: jsnum where "TEXT_PADDING = Fin 10"
definition LINE_HEIGHT_MULTIPLIER :: jsnum where "LINE_HEIGHT_MULTIPLIER = Fin 1.2"
definition MIN_RENDER_FONT_SIZE :: jsnum where "MIN_RENDER_FONT_SIZE = Fin 8"
definition CONTRAST_THRESHOLD_FOR_SCRIM :: jsnum where "CONTRAST_THRESHOLD_FOR_SCRIM = Fin 4.0"
definition BUSYNESS_THRESHOLD_FOR_SCRIM :: jsnum where "BUSYNESS_THRESHOLD_FOR_SCRIM = Fin 500"

text \<open>\<open>text.split(' ')\<close>: the pieces between single spaces, at least one piece.\<close>

fun splitSpace :: "string \<Rightarrow> string list" where
  "splitSpace [] = [[]]"
| "splitSpace (ch # s) =
     (if ch = CHR '' '' then [] # splitSpace s
      else (case splitSpace s of [] \<Rightarrow> [[ch]] | w # ws \<Rightarrow> (ch # w) # ws))"

text \<open>\<open>!text.trim()\<close>: the text is empty once its leading and trailing white space is removed.\<close>

definition isBlank :: "string \<Rightarrow> bool" where
  "isBlank s = list_all isWhitespace s"

text \<open>
  The loop of \<open>wrapTextCanvas\<close> over the words after the first, on \<open>lines\<close> and
  \<open>currentLine\<close>, with the final push. \<open>measureText\<close> is the width the drawing context
  measures at its current font.
\<close>

fun wrapLoop :: "(string \<Rightarrow> jsnum) \<Rightarrow> jsnum \<Rightarrow> string list \<Rightarrow> string list \<Rightarrow> string \<Rightarrow> string list" where
  "wrapLoop measureText maxWidth [] lines currentLine =
     (if currentLine \<noteq> [] then lines @ [currentLine] else lines)"
| "wrapLoop measureText maxWidth (word # rest) lines currentLine =
     (let testLine = currentLine @ (if currentLine \<noteq> [] then '' '' else []) @ word
      in if jlt (measureText testLine) maxWidth
         then wrapLoop measureText maxWidth rest lines testLine
         else
           (let lines' = (if currentLine \<noteq> [] then lines @ [currentLine] else lines)
            in if jgt (measureText word) maxWidth \<and> length lines' = 0
               then lines' @ [word]
               else wrapLoop measureText maxWidth rest lines' word))"

definition wrapTextCanvas :: "(string \<Rightarrow> jsnum) \<Rightarrow> string \<Rightarrow> jsnum \<Rightarrow> string list" where
  "wrapTextCanvas measureText txt maxWidth =
     (if isBlank txt \<or> jle maxWidth (Fin 0) then []
      else
        (case splitSpace txt of
           [] \<Rightarrow> []
         | currentLine # rest \<Rightarrow>
             if jgt (measureText currentLine) maxWidth then [currentLine]
             else wrapLoop measureText maxWidth rest [] currentLine))"

text \<open>
  The drawing context is the list of the draw calls it received. A fill style is the
  \<open>rgba(base, opacity)\<close> of the scrim or the text colour; a text call records the font
  size, the alignment, the line and its position (the baseline is always \<open>top\<close>).
  The font \<open>currentSize + "px Arial"\<close> is represented by \<open>currentSize\<close>, and the measuring
  capability by a function of the font size and the text.
\<close>

datatype FillStyle = Rgba string jsnum | TextColor string

datatype DrawOp =
    FillRect FillStyle jsnum jsnum jsnum jsnum
  | FillText FillStyle jsnum string string jsnum jsnum

definition substring :: "string \<Rightarrow> nat \<Rightarrow> nat \<Rightarrow> string" where
  "substring s i j = take (j - i) (drop i s)"

definition orZero :: "string \<Rightarrow> string" where
  "orZero s = (if s = [] then ''0'' else s)"

definition textIsDark :: "string \<Rightarrow> bool" where
  "textIsDark txtColor =
     (txtColor = ''black''
      \<or> jlt (getLuminance (parseInt (orZero (substring txtColor 4 7)))
                          (parseInt (orZero (substring txtColor 9 12)))
                          (parseInt (orZero (substring txtColor 14 17))))
             (Fin 128))"

definition needsScrim :: "AnalysisResult \<Rightarrow> bool" where
  "needsScrim res =
     (jlt (textContrastRatio res) CONTRAST_THRESHOLD_FOR_SCRIM
      \<or> jgt (rectBusyness res) BUSYNESS_THRESHOLD_FOR_SCRIM)"

text \<open>The draw calls of the scrim block.\<close>

definition scrimOps :: "AnalysisResult \<Rightarrow> DrawOp list" where
  "scrimOps res =
     (if needsScrim res
      then
        (let scrimBaseColor = (if textIsDark (textColor res) then ''255,255,255'' else ''0,0,0'');
             scrimOpacity = (if jlt (textContrastRatio res) (Fin 2.5) then Fin 0.7
                             else if jlt (textContrastRatio res) (Fin 3.5) then Fin 0.6
                             else Fin 0.5)
         in [FillRect (Rgba scrimBaseColor scrimOpacity) (rect_x (rect res)) (rect_y (rect res))
               (rect_width (rect res)) (rect_height (rect res))])
      else [])"

text \<open>Whether the wrapped block fits at a font size, with the lines and the block height.\<close>

definition fitsAt ::
  "(jsnum \<Rightarrow> string \<Rightarrow> jsnum) \<Rightarrow> string \<Rightarrow> jsnum \<Rightarrow> jsnum \<Rightarrow> jsnum \<Rightarrow> bool \<times> string list \<times> jsnum" where
  "fitsAt measureText textToRender availableRectWidth availableRectHeight currentSize =
     (let lines = wrapTextCanvas (measureText currentSize) textToRender availableRectWidth;
          currentBlockHeight =
            jmul (Fin (real (length lines))) (jmul currentSize LINE_HEIGHT_MULTIPLIER);
          linesFitWidth =
            list_all (\<lambda>line. \<not> jgt (measureText currentSize line) availableRectWidth) lines
      in (jle currentBlockHeight availableRectHeight \<and> linesFitWidth, lines, currentBlockHeight))"

text \<open>
  The font size loop: the first size of \<open>currentSize, currentSize - 1, ...\<close>, down to the
  minimum, at which the block fits, with its lines and height; \<open>Some None\<close> when the loop
  ends without a fit, \<open>None\<close> when it does not end (an infinite start size, which the
  decrement leaves unchanged). The scrim block of \<open>renderTextWithDynamicSizing\<close> runs before
  this loop.
\<close>

partial_function (option) fitFontSize ::
  "(jsnum \<Rightarrow> string \<Rightarrow> jsnum) \<Rightarrow> string \<Rightarrow> jsnum \<Rightarrow> jsnum \<Rightarrow> jsnum
     \<Rightarrow> (jsnum \<times> string list \<times> jsnum) option option" where
  "fitFontSize measureText textToRender availableRectWidth availableRectHeight currentSize =
     (if jge currentSize MIN_RENDER_FONT_SIZE
      then
        (case fitsAt measureText textToRender availableRectWidth availableRectHeight currentSize of
           (ok, lines, currentBlockHeight) \<Rightarrow>
             if ok then Some (Some (currentSize, lines, currentBlockHeight))
             else fitFontSize measureText textToRender availableRectWidth availableRectHeight
                    (jsub currentSize (Fin 1)))
      else Some None)"

text \<open>The draw calls of the text block, for the lines, font size and block height found.\<close>

definition textOps ::
  "AnalysisResult \<Rightarrow> jsnum \<Rightarrow> jsnum \<Rightarrow> jsnum \<Rightarrow> string list \<Rightarrow> jsnum \<Rightarrow> DrawOp list" where
  "textOps res targetCanvasWidth targetCanvasHeight renderFontSize wrappedLines textBlockHeight =
     (let rc = rect res;
          availableRectHeight = jsub (rect_height rc) (jmul (Fin 2) TEXT_PADDING);
          rectCenterX = jadd (rect_x rc) (jdiv (rect_width rc) (Fin 2));
          rectCenterY = jadd (rect_y rc) (jdiv (rect_height rc) (Fin 2));
          hAlign = (if jlt rectCenterX (jmul targetCanvasWidth (Fin 0.35)) then ''left''
                    else if jgt rectCenterX (jmul targetCanvasWidth (Fin 0.65)) then ''right''
                    else ''center'');
          vAlign = (if jlt rectCenterY (jmul targetCanvasHeight (Fin 0.35)) then ''top''
                    else if jgt rectCenterY (jmul targetCanvasHeight (Fin 0.65)) then ''bottom''
                    else ''middle'');
          textDrawX = (if hAlign = ''left'' then jadd (rect_x rc) TEXT_PADDING
                       else if hAlign = ''right''
                       then jsub (jadd (rect_x rc) (rect_width rc)) TEXT_PADDING
                       else jadd (rect_x rc) (jdiv (rect_width rc) (Fin 2)));
          blockStartY = (if vAlign = ''top'' then jadd (rect_y rc) TEXT_PADDING
                         else if vAlign = ''bottom''
                         then jsub (jsub (jadd (rect_y rc) (rect_height rc)) TEXT_PADDING)
                                textBlockHeight
                         else jadd (jadd (rect_y rc) TEXT_PADDING)
                                (jdiv (jsub availableRectHeight textBlockHeight) (Fin 2)));
          lineHeight = jmul renderFontSize LINE_HEIGHT_MULTIPLIER
      in map (\<lambda>i. FillText (TextColor (textColor res)) renderFontSize hAlign (wrappedLines ! i)
                    textDrawX (jadd blockStartY (jmul (Fin (real i)) lineHeight)))
             [0 ..< length wrappedLines])"

text \<open>
  \<open>renderTextWithDynamicSizing\<close>: the draw calls in order, \<open>None\<close> when the font size loop
  does not end.
\<close>

definition renderTextWithDynamicSizing ::
  "(jsnum \<Rightarrow> string \<Rightarrow> jsnum) \<Rightarrow> string \<Rightarrow> AnalysisResult \<Rightarrow> jsnum \<Rightarrow> jsnum
     \<Rightarrow> DrawOp list option" where
  "renderTextWithDynamicSizing measureText textToRender currentAnalysisResult
       targetCanvasWidth targetCanvasHeight =
     (let rc = rect currentAnalysisResult;
          initialFontSize = fontSize currentAnalysisResult;
          renderFontSize =
            jmin (jmin initialFontSize (jsub (rect_height rc) (jmul (Fin 2) TEXT_PADDING)))
                 (jdiv (jsub (rect_width rc) (jmul (Fin 2) TEXT_PADDING)) (Fin 2));
          renderFontSize = jmax renderFontSize MIN_RENDER_FONT_SIZE;
          availableRectWidth = jsub (rect_width rc) (jmul (Fin 2) TEXT_PADDING);
          availableRectHeight = jsub (rect_height rc) (jmul (Fin 2) TEXT_PADDING);
          found = (if jgt availableRectWidth (Fin 0) \<and> jgt availableRectHeight (Fin 0)
                   then fitFontSize measureText textToRender availableRectWidth
                          availableRectHeight renderFontSize
                   else Some None)
      in case found of
           None \<Rightarrow> None
         | Some None \<Rightarrow> Some (scrimOps currentAnalysisResult)
         | Some (Some (foundSize, wrappedLines, textBlockHeight)) \<Rightarrow>
             Some (scrimOps currentAnalysisResult
                   @ (if length wrappedLines > 0
                      then textOps currentAnalysisResult targetCanvasWidth targetCanvasHeight
                             foundSize wrappedLines textBlockHeight
                      else [])))"

text \<open>
  What every entry of the shape map satisfies: it is stored under its own dimensions, and
  these passed the guard of \<open>addShape\<close>.
\<close>

definition shape_ok :: "int \<Rightarrow> int \<Rightarrow> int \<Rightarrow> (int \<times> int) \<times> ShapeToFind \<Rightarrow> bool" where
  "shape_ok targetArea maxRows maxCols e =
     (fst e = (rows (snd e), cols (snd e))
      \<and> 1 \<le> rows (snd e) \<and> rows (snd e) \<le> maxRows
      \<and> 1 \<le> cols (snd e) \<and> cols (snd e) \<le> maxCols
      \<and> real_of_int (rows (snd e) * cols (snd e)) \<ge> real_of_int targetArea * 0.8)"

definition shapes_inv :: "int \<Rightarrow> int \<Rightarrow> int \<Rightarrow> shape_map \<Rightarrow> bool" where
  "shapes_inv targetArea maxRows maxCols shapes =
     (distinct (map fst shapes) \<and> list_all (shape_ok targetArea maxRows maxCols) shapes)"

section \<open>Notions used to state the properties of the search\<close>

text \<open>
  The sums of a rectangle and its average busyness, read off the cell statistics; the
  record the search builds for a shape at a position; and the tested (shape, position)
  pairs in the order the loops visit them: shapes in list order, each shape that passes
  the bounds check at its positions row by row. (A shape without cells has the average
  \<open>0 / 0 = NaN\<close>, which is below nothing; the code skips it.)
\<close>

definition rectTotals :: "CellStat list \<Rightarrow> 'a RowsCols_scheme \<Rightarrow> int \<Rightarrow> int \<times> int \<Rightarrow> rect_sums" where
  "rectTotals cellStats sh gridCols pos =
     (let idx = rectCellIndices sh gridCols (fst pos) (snd pos)
      in (foldl jadd (Fin 0) (map (\<lambda>i. busyness (cellStats ! nat i)) idx),
          foldl jadd (Fin 0) (map (\<lambda>i. red (avgColor (cellStats ! nat i))) idx),
          foldl jadd (Fin 0) (map (\<lambda>i. green (avgColor (cellStats ! nat i))) idx),
          foldl jadd (Fin 0) (map (\<lambda>i. blue (avgColor (cellStats ! nat i))) idx),
          length idx))"

definition rectAvgBusyness :: "CellStat list \<Rightarrow> int \<Rightarrow> 'a RowsCols_scheme \<times> (int \<times> int) \<Rightarrow> jsnum" where
  "rectAvgBusyness cellStats gridCols p =
     (let idx = rectCellIndices (fst p) gridCols (fst (snd p)) (snd (snd p))
      in jdiv (foldl jadd (Fin 0) (map (\<lambda>i. busyness (cellStats ! nat i)) idx))
              (Fin (real (length idx))))"

definition rectInfoAt ::
  "CellStat list \<Rightarrow> RowsCols \<Rightarrow> jsnum \<Rightarrow> jsnum \<Rightarrow> ShapeToFind \<times> (int \<times> int) \<Rightarrow> FoundRectInfo" where
  "rectInfoAt cellStats gridCfg cellWidthPx cellHeightPx p =
     makeRect (fst p) cellWidthPx cellHeightPx (fst (snd p)) (snd (snd p))
       (rectTotals cellStats (fst p) (cols gridCfg) (snd p))"

definition shapeFits :: "'a RowsCols_scheme \<Rightarrow> RowsCols \<Rightarrow> int \<Rightarrow> bool" where
  "shapeFits sh gridCfg borderExclusion =
     (\<not> (rows sh + 2 * borderExclusion > rows gridCfg
         \<or> cols sh + 2 * borderExclusion > cols gridCfg))"

definition testedPairs ::
  "ShapeToFind list \<Rightarrow> RowsCols \<Rightarrow> int \<Rightarrow> (ShapeToFind \<times> (int \<times> int)) list" where
  "testedPairs shapes gridCfg borderExclusion =
     concat (map (\<lambda>sh. if shapeFits sh gridCfg borderExclusion
                         then map (Pair sh) (positionsToScan sh gridCfg borderExclusion)
                         else [])
                 shapes)"

text \<open>
  \<open>k\<close> is the first element of \<open>ps\<close> at which \<open>f\<close> takes the value \<open>v\<close>, \<open>v\<close> is below
  \<open>Infinity\<close>, and \<open>f\<close> is nowhere on \<open>ps\<close> below \<open>v\<close>.
\<close>

definition firstMin :: "('p \<Rightarrow> jsnum) \<Rightarrow> 'p list \<Rightarrow> 'p \<Rightarrow> jsnum \<Rightarrow> bool" where
  "firstMin f ps k v =
     ((\<exists>pre post. ps = pre @ k # post \<and> list_all (\<lambda>p. f p \<noteq> v) pre)
      \<and> f k = v \<and> jlt v PInf \<and> list_all (\<lambda>p. \<not> jlt (f p) v) ps)"

text \<open>The state of a search after the pairs \<open>ps\<close>: nothing below \<open>Infinity\<close> yet, or the first minimum.\<close>

definition searchInv ::
  "('p \<Rightarrow> jsnum) \<Rightarrow> ('p \<Rightarrow> FoundRectInfo) \<Rightarrow> 'p list \<Rightarrow> FoundRectInfo option \<Rightarrow> bool" where
  "searchInv f mk ps best =
     (case best of
        None \<Rightarrow> list_all (\<lambda>p. \<not> jlt (f p) PInf) ps
      | Some info \<Rightarrow> \<exists>k. info = mk k \<and> firstMin f ps k (avgBusyness info))"

text \<open>Every cell index of every position of a shape lies within the statistics.\<close>

definition indicesInRange :: "CellStat list \<Rightarrow> RowsCols \<Rightarrow> int \<Rightarrow> 'a RowsCols_scheme \<Rightarrow> bool" where
  "indicesInRange cellStats gridCfg borderExclusion sh =
     list_all (\<lambda>pos. list_all (\<lambda>i. 0 \<le> i \<and> nat i < length cellStats)
                        (rectCellIndices sh (cols gridCfg) (fst pos) (snd pos)))
              (positionsToScan sh gridCfg borderExclusion)"

text \<open>The second component of the state of a scan is the average busyness of the first.\<close>

definition scanStateOk :: "search_state \<Rightarrow> bool" where
  "scanStateOk st = (case fst st of None \<Rightarrow> snd st = PInf | Some info \<Rightarrow> snd st = avgBusyness info)"

text \<open>What the loop over the shapes does with the result for one shape.\<close>

definition mergeBest :: "FoundRectInfo option \<Rightarrow> FoundRectInfo option \<Rightarrow> FoundRectInfo option" where
  "mergeBest overallBestRect res =
     (case res of
        None \<Rightarrow> overallBestRect
      | Some rectInfoForShape \<Rightarrow>
          (case overallBestRect of
             None \<Rightarrow> Some rectInfoForShape
           | Some best \<Rightarrow>
               if jlt (avgBusyness rectInfoForShape) (avgBusyness best)
               then Some rectInfoForShape else Some best))"

text \<open>The hover data \<open>analyzeImageCore\<close> builds from its statistics.\<close>

definition hoverDataOf :: "ImageData \<Rightarrow> RowsCols \<Rightarrow> AnalysisDataForHover" where
  "hoverDataOf imageData gridCfg =
     (let cellWidthPx = jdiv (Fin (real (img_width imageData))) (jint (cols gridCfg));
          cellHeightPx = jdiv (Fin (real (img_height imageData))) (jint (rows gridCfg))
      in \<lparr>hover_stats = computeCellStats (img_data imageData) (img_width imageData)
                           cellWidthPx cellHeightPx gridCfg,
          hover_gridConfig = gridCfg,
          hover_cellWidthPx = cellWidthPx, hover_cellHeightPx = cellHeightPx,
          hover_canvasWidth = img_width imageData, hover_canvasHeight = img_height imageData\<rparr>)"

section \<open>Example inputs\<close>

text \<open>
  A grid of one row and three cells with busyness 5, 3 and 3, a grid of three by three
  equal cells, and the shape of a single cell.
\<close>

definition plainCell :: "real \<Rightarrow> CellStat" where
  "plainCell v = \<lparr>avgColor = \<lparr>red = Fin 0, green = Fin 0, blue = Fin 0\<rparr>, busyness = Fin v\<rparr>"

definition rowOfThree :: "CellStat list" where
  "rowOfThree = [plainCell 5, plainCell 3, plainCell 3]"

definition threeByThree :: "CellStat list" where
  "threeByThree = replicate 9 (plainCell 2)"

definition oneCell :: ShapeToFind where
  "oneCell = \<lparr>rows = 1, cols = 1, name = ''square''\<rparr>"

text \<open>
  An image of 100 by 100 black, opaque pixels, and an image of a single such pixel.
\<close>

definition blackImage :: ImageData where
  "blackImage = \<lparr>img_data = concat (replicate 10000 [0, 0, 0, 255]),
                  img_width = 100, img_height = 100\<rparr>"

definition onePixel :: ImageData where
  "onePixel = \<lparr>img_data = [0, 0, 0, 255], img_width = 1, img_height = 1\<rparr>"

definition emptyImage :: ImageData where
  "emptyImage = \<lparr>img_data = [], img_width = 0, img_height = 0\<rparr>"

section \<open>Notions used to state the properties of the text layout\<close>

text \<open>
  \<open>lines.join(' ')\<close>; the non-empty words of a text; and the whitespace-normalized text of
  the specification: its words joined by single spaces.
\<close>

fun joinSpace :: "string list \<Rightarrow> string" where
  "joinSpace [] = []"
| "joinSpace [line] = line"
| "joinSpace (line # line' # rest) = line @ CHR '' '' # joinSpace (line' # rest)"

definition wordsOf :: "string \<Rightarrow> string list" where
  "wordsOf txt = filter (\<lambda>w. w \<noteq> []) (splitSpace txt)"

definition normalizedText :: "string \<Rightarrow> string" where
  "normalizedText txt = joinSpace (wordsOf txt)"

text \<open>
  The start size of the font size loop and the padded interior of the rectangle, as
  \<open>renderTextWithDynamicSizing\<close> computes them.
\<close>

definition startSizeOf :: "AnalysisResult \<Rightarrow> jsnum" where
  "startSizeOf res =
     jmax (jmin (jmin (fontSize res) (jsub (rect_height (rect res)) (jmul (Fin 2) TEXT_PADDING)))
                (jdiv (jsub (rect_width (rect res)) (jmul (Fin 2) TEXT_PADDING)) (Fin 2)))
          MIN_RENDER_FONT_SIZE"

definition availWidthOf :: "AnalysisResult \<Rightarrow> jsnum" where
  "availWidthOf res = jsub (rect_width (rect res)) (jmul (Fin 2) TEXT_PADDING)"

definition availHeightOf :: "AnalysisResult \<Rightarrow> jsnum" where
  "availHeightOf res = jsub (rect_height (rect res)) (jmul (Fin 2) TEXT_PADDING)"

fun isFillRect :: "DrawOp \<Rightarrow> bool" where
  "isFillRect (FillRect style x y w h) = True"
| "isFillRect (FillText style fsize align line x y) = False"

fun isFillText :: "DrawOp \<Rightarrow> bool" where
  "isFillText (FillText style fsize align line x y) = True"
| "isFillText (FillRect style x y w h) = False"

text \<open>
  Example inputs of the layout: a measure of one unit per character, a drawing context in
  which every character is half the font size wide, and analysis results for a rectangle of the given width and height at
  the origin, with a suggested font size of 20, white text and no busyness.
\<close>

definition unitChars :: "string \<Rightarrow> jsnum" where
  "unitChars line = Fin (real (length line))"

definition halfSizeChars :: "jsnum \<Rightarrow> string \<Rightarrow> jsnum" where
  "halfSizeChars fsize line = jmul (Fin (real (length line))) (jmul fsize (Fin 0.5))"

definition resultFor :: "real \<Rightarrow> real \<Rightarrow> string \<Rightarrow> real \<Rightarrow> AnalysisResult" where
  "resultFor w h txtColor contrast =
     \<lparr>rect = \<lparr>rect_x = Fin 0, rect_y = Fin 0, rect_width = Fin w, rect_height = Fin h\<rparr>,
      textColor = txtColor, fontSize = Fin 20,
      avgBackgroundColor = \<lparr>red = Fin 0, green = Fin 0, blue = Fin 0\<rparr>,
      aspectRatioName = Some ''square'', actualCells = \<lparr>rows = 3, cols = 4\<rparr>,
      rectBusyness = Fin 0, textContrastRatio = Fin contrast\<rparr>"

lemma shapes_inv_Nil: "shapes_inv t mr mc []"
  by (simp add: shapes_inv_def)

lemma shapes_inv_addShape:
  assumes "shapes_inv t mr mc shapes"
  shows "shapes_inv t mr mc (addShape t mr mc p r0 c0 shapes)"
proof (cases "r0 \<le> 0 \<or> c0 \<le> 0 \<or> r0 > mr \<or> c0 > mc
         \<or> real_of_int (r0 * c0) < real_of_int t * 0.8 \<or> map_of shapes (r0, c0) \<noteq> None")
  case True
  then have "addShape t mr mc p r0 c0 shapes = shapes"
    by (auto simp: addShape_def)
  with assms show ?thesis by simp
next
  case False
  then have new: "addShape t mr mc p r0 c0 shapes
      = shapes @ [((r0, c0), \<lparr>rows = r0, cols = c0, name = shapeName r0 c0\<rparr>)]"
    by (auto simp: addShape_def)
  from False have "(r0, c0) \<notin> fst ` set shapes"
    by (simp add: map_of_eq_None_iff)
  moreover from False have "shape_ok t mr mc ((r0, c0), \<lparr>rows = r0, cols = c0, name = shapeName r0 c0\<rparr>)"
    by (simp add: shape_ok_def)
  ultimately show ?thesis
    using assms unfolding new shapes_inv_def by simp
qed

lemma shapes_inv_if:
  "shapes_inv t mr mc shapes \<Longrightarrow>
   shapes_inv t mr mc (if c then addShape t mr mc p r0 c0 shapes else shapes)"
  by (simp add: shapes_inv_addShape)

lemma shapes_inv_generate:
  "\<exists>shapes. shapes_inv t mr mc shapes \<and> generateShapesToTest t mr mc = map snd shapes"
  unfolding generateShapesToTest_def Let_def
  apply (rule exI)
  apply (rule conjI)
   prefer 2
   apply (rule refl)
  apply (intro shapes_inv_addShape shapes_inv_if shapes_inv_Nil)
  done

lemma shapes_inv_keys:
  assumes "shapes_inv t mr mc shapes"
  shows "map (\<lambda>s. (rows s, cols s)) (map snd shapes) = map fst shapes"
  using assms by (induction shapes) (auto simp: shapes_inv_def shape_ok_def)

text \<open>
  C7: for every target area of at least one cell, every generated shape lies within
  \<open>1 \<le> rows \<le> maxRows\<close> and \<open>1 \<le> cols \<le> maxCols\<close>, covers at least \<open>0.8\<close> times the
  target area, and no two generated shapes have the same \<open>(rows, cols)\<close> pair.
\<close>

theorem generateShapesToTest_sound:
  assumes "1 \<le> targetArea"
  shows "(\<forall>s \<in> set (generateShapesToTest targetArea maxRows maxCols).
            1 \<le> rows s \<and> rows s \<le> maxRows \<and> 1 \<le> cols s \<and> cols s \<le> maxCols
            \<and> real_of_int (rows s * cols s) \<ge> real_of_int targetArea * 0.8)
         \<and> distinct (map (\<lambda>s. (rows s, cols s)) (generateShapesToTest targetArea maxRows maxCols))"
proof -
  obtain shapes where inv: "shapes_inv targetArea maxRows maxCols shapes"
    and gen: "generateShapesToTest targetArea maxRows maxCols = map snd shapes"
    using shapes_inv_generate by blast
  have "\<forall>e \<in> set shapes. shape_ok targetArea maxRows maxCols e"
    using inv by (simp add: shapes_inv_def list_all_iff)
  then have "\<forall>s \<in> set (map snd shapes).
            1 \<le> rows s \<and> rows s \<le> maxRows \<and> 1 \<le> cols s \<and> cols s \<le> maxCols
            \<and> real_of_int (rows s * cols s) \<ge> real_of_int targetArea * 0.8"
    by (auto simp: shape_ok_def)
  moreover have "distinct (map (\<lambda>s. (rows s, cols s)) (map snd shapes))"
    unfolding shapes_inv_keys [OF inv] using inv by (simp add: shapes_inv_def)
  ultimately show ?thesis
    unfolding gen by blast
qed

subsection \<open>The shapes for a target area of twelve cells\<close>

lemma round_sqrt_eq:
  assumes "1 \<le> k" and "(of_int k - 1 / 2)\<^sup>2 \<le> x" and "x < (of_int k + 1 / 2)\<^sup>2"
  shows "round (sqrt x) = k"
proof -
  have lo: "of_int k - 1 / 2 \<le> sqrt x"
    using assms(2) by (rule real_le_rsqrt)
  have "0 \<le> x"
    using assms(2) by (meson order_trans zero_le_power2)
  then have hi: "sqrt x < of_int k + 1 / 2"
    using assms(1,3) by (intro real_less_lsqrt) auto
  show ?thesis
    unfolding round_def using lo hi by (intro floor_unique) auto
qed

lemma round_sqrt_12: "round (sqrt 12) = 3"
  by (rule round_sqrt_eq) (simp_all add: power2_eq_square)

lemma round_sqrt_12_landscape: "round (sqrt (12 / 1.8)) = 3"
  by (rule round_sqrt_eq) (simp_all add: power2_eq_square)

lemma ceiling_12_3: "\<lceil>(12::real) / 3\<rceil> = 4"
  by (simp add: ceiling_unique)

lemma square_side_12: "max 1 (round (sqrt (real_of_int 12))) = 3"
  by (simp add: round_sqrt_12)

lemma landscape_side_12: "max 1 (round (sqrt (real_of_int 12 / 1.8))) = 3"
  using round_sqrt_12_landscape by simp

lemma other_side_12: "max 1 \<lceil>real_of_int 12 / real_of_int 3\<rceil> = 4"
  by (simp add: ceiling_12_3)

lemma addShape_12_first:
  "addShape 12 10 10 p 3 4 [] = [((3, 4), \<lparr>rows = 3, cols = 4, name = ''square''\<rparr>)]"
  by (simp add: addShape_def shapeName_def)

lemma generateShapesToTest_12_10_10:
  "generateShapesToTest 12 10 10 =
     [\<lparr>rows = 3, cols = 4, name = ''square''\<rparr>, \<lparr>rows = 4, cols = 3, name = ''square''\<rparr>,
      \<lparr>rows = 4, cols = 4, name = ''square''\<rparr>, \<lparr>rows = 3, cols = 5, name = ''landscape''\<rparr>]"
  unfolding generateShapesToTest_def Let_def square_side_12 landscape_side_12 other_side_12
  apply (simp only: addShape_12_first)
  apply (simp add: addShape_def shapeName_def)
  done

theorem generateShapesToTest_sound_witness:
  "(1::int) \<le> 12
   \<and> \<lparr>rows = 3, cols = 5, name = ''landscape''\<rparr> \<in> set (generateShapesToTest 12 10 10)
   \<and> (1::int) \<le> 3 \<and> (3::int) \<le> 10 \<and> (1::int) \<le> 5 \<and> (5::int) \<le> 10
   \<and> real_of_int (3 * 5) \<ge> real_of_int 12 * 0.8
   \<and> distinct (map (\<lambda>s. (rows s, cols s)) (generateShapesToTest 12 10 10))"
proof -
  have h: "(1::int) \<le> 12" by simp
  have mem: "\<lparr>rows = 3, cols = 5, name = ''landscape''\<rparr> \<in> set (generateShapesToTest 12 10 10)"
    by (simp add: generateShapesToTest_12_10_10)
  show ?thesis
    using h mem generateShapesToTest_sound [OF h, of 10 10] by auto
qed

section \<open>Rectangle search: the first minimum\<close>

subsection \<open>Order facts about numbers\<close>

lemma jlt_trans: "jlt a c \<Longrightarrow> jlt c d \<Longrightarrow> jlt a d"
  by (cases a; cases c; cases d) simp_all

lemma jlt_below_PInf: "jlt a c \<Longrightarrow> jlt a PInf"
  by (cases a; cases c) simp_all

lemma jlt_irrefl: "\<not> jlt a a"
  by (cases a) simp_all

lemma jlt_not_jlt_trans: "jlt a v \<Longrightarrow> \<not> jlt w v \<Longrightarrow> jlt w PInf \<Longrightarrow> jlt a w"
  by (cases a; cases v; cases w) simp_all

lemma not_jlt_PInf_any: "\<not> jlt a PInf \<Longrightarrow> \<not> jlt a v"
  by (cases a; cases v) simp_all

lemma not_jlt_imp_jle: "\<not> jlt a v \<Longrightarrow> a \<noteq> NaN \<Longrightarrow> v \<noteq> NaN \<Longrightarrow> jle v a"
  by (cases a; cases v) simp_all

lemma jdiv_zero_zero: "jdiv (Fin 0) (Fin 0) = NaN"
  by (simp add: inf_of_sign_def)

subsection \<open>The inner loops\<close>

lemma sumRectCells_eq:
  "sumRectCells cellStats idx (bs, sr, sg, sb, n) =
     (if list_all (\<lambda>i. 0 \<le> i \<and> nat i < length cellStats) idx
      then Inr (foldl jadd bs (map (\<lambda>i. busyness (cellStats ! nat i)) idx),
                foldl jadd sr (map (\<lambda>i. red (avgColor (cellStats ! nat i))) idx),
                foldl jadd sg (map (\<lambda>i. green (avgColor (cellStats ! nat i))) idx),
                foldl jadd sb (map (\<lambda>i. blue (avgColor (cellStats ! nat i))) idx),
                n + length idx)
      else Inl TypeError)"
proof (induction idx arbitrary: bs sr sg sb n)
  case Nil
  show ?case by simp
next
  case (Cons i rest)
  show ?case
    by (simp add: Cons.IH)
qed

lemma sumRectCells_totals:
  assumes "list_all (\<lambda>i. 0 \<le> i \<and> nat i < length cellStats)
             (rectCellIndices sh gridCols (fst pos) (snd pos))"
  shows "sumRectCells cellStats (rectCellIndices sh gridCols (fst pos) (snd pos))
           (Fin 0, Fin 0, Fin 0, Fin 0, 0) = Inr (rectTotals cellStats sh gridCols pos)"
  using assms by (simp add: sumRectCells_eq rectTotals_def Let_def)

lemma sumRectCells_Inr_range:
  assumes "sumRectCells cellStats idx acc = Inr tot"
  shows "list_all (\<lambda>i. 0 \<le> i \<and> nat i < length cellStats) idx"
proof (rule ccontr)
  assume "\<not> list_all (\<lambda>i. 0 \<le> i \<and> nat i < length cellStats) idx"
  then have "sumRectCells cellStats idx acc = Inl TypeError"
    by (cases acc) (simp add: sumRectCells_eq)
  with assms show False by simp
qed

lemma avgBusyness_rectInfoAt:
  "avgBusyness (rectInfoAt cellStats gridCfg cw ch p) = rectAvgBusyness cellStats (cols gridCfg) p"
  by (simp add: rectInfoAt_def makeRect_def rectTotals_def rectAvgBusyness_def Let_def)

lemma rectAvgBusyness_no_cells:
  assumes "rectCellIndices (fst p) gridCols (fst (snd p)) (snd (snd p)) = []"
  shows "rectAvgBusyness cellStats gridCols p = NaN"
  using assms by (simp add: rectAvgBusyness_def inf_of_sign_def)

subsection \<open>The invariant of a scan\<close>

lemma firstMin_snoc_keep:
  assumes "firstMin f ps k v" and "\<not> jlt (f q) v"
  shows "firstMin f (ps @ [q]) k v"
proof -
  from assms(1) obtain pre post where "ps = pre @ k # post" "list_all (\<lambda>p. f p \<noteq> v) pre"
    unfolding firstMin_def by blast
  then have "ps @ [q] = pre @ k # (post @ [q]) \<and> list_all (\<lambda>p. f p \<noteq> v) pre"
    by simp
  then have "\<exists>pre post. ps @ [q] = pre @ k # post \<and> list_all (\<lambda>p. f p \<noteq> v) pre"
    by blast
  then show ?thesis
    using assms unfolding firstMin_def by simp
qed

lemma firstMin_snoc_new:
  assumes "list_all (\<lambda>p. \<not> jlt (f p) v) ps" and "jlt (f q) v"
  shows "firstMin f (ps @ [q]) q (f q)"
proof -
  have ne: "list_all (\<lambda>p. f p \<noteq> f q) ps"
    using assms by (auto simp: list_all_iff)
  have low: "list_all (\<lambda>p. \<not> jlt (f p) (f q)) ps"
    using assms by (auto simp: list_all_iff dest: jlt_trans)
  have "ps @ [q] = ps @ q # [] \<and> list_all (\<lambda>p. f p \<noteq> f q) ps"
    using ne by simp
  then have "\<exists>pre post. ps @ [q] = pre @ q # post \<and> list_all (\<lambda>p. f p \<noteq> f q) pre"
    by blast
  then show ?thesis
    using low assms(2) unfolding firstMin_def
    by (simp add: jlt_irrefl jlt_below_PInf [OF assms(2)])
qed

lemma searchInv_below:
  assumes "searchInv f mk ps best" and "best = None \<longrightarrow> v = PInf"
    and "\<forall>info. best = Some info \<longrightarrow> v = avgBusyness info"
  shows "list_all (\<lambda>p. \<not> jlt (f p) v) ps"
  using assms by (cases best) (auto simp: searchInv_def firstMin_def)

text \<open>One position: the body of the position loops keeps the invariant.\<close>

lemma tryPosition_eq:
  assumes "list_all (\<lambda>i. 0 \<le> i \<and> nat i < length cellStats)
             (rectCellIndices sh (cols gridCfg) (fst pos) (snd pos))"
  shows "tryPosition sh cellStats gridCfg cw ch pos st =
           (if rectCellIndices sh (cols gridCfg) (fst pos) (snd pos) = [] then Inr st
            else if jlt (rectAvgBusyness cellStats (cols gridCfg) (sh, pos)) (snd st)
            then Inr (Some (rectInfoAt cellStats gridCfg cw ch (sh, pos)),
                      rectAvgBusyness cellStats (cols gridCfg) (sh, pos))
            else Inr st)"
  by (simp add: tryPosition_def sumRectCells_totals [OF assms] rectTotals_def rectInfoAt_def
        rectAvgBusyness_def Let_def)

lemma tryPosition_Inr_range:
  assumes "tryPosition sh cellStats gridCfg cw ch pos st = Inr st'"
  shows "list_all (\<lambda>i. 0 \<le> i \<and> nat i < length cellStats)
           (rectCellIndices sh (cols gridCfg) (fst pos) (snd pos))"
proof -
  obtain tot where "sumRectCells cellStats (rectCellIndices sh (cols gridCfg) (fst pos) (snd pos))
      (Fin 0, Fin 0, Fin 0, Fin 0, 0) = Inr tot"
    using assms by (auto simp: tryPosition_def split: sum.splits)
  then show ?thesis by (rule sumRectCells_Inr_range)
qed

lemma tryPosition_inv:
  assumes run: "tryPosition sh cellStats gridCfg cw ch pos st = Inr st'"
    and inv: "searchInv (\<lambda>q. rectAvgBusyness cellStats (cols gridCfg) (sh, q))
                (\<lambda>q. rectInfoAt cellStats gridCfg cw ch (sh, q)) ps (fst st)"
    and ok: "scanStateOk st"
  shows "searchInv (\<lambda>q. rectAvgBusyness cellStats (cols gridCfg) (sh, q))
           (\<lambda>q. rectInfoAt cellStats gridCfg cw ch (sh, q)) (ps @ [pos]) (fst st')
         \<and> scanStateOk st'"
proof -
  let ?f = "\<lambda>q. rectAvgBusyness cellStats (cols gridCfg) (sh, q)"
  let ?mk = "\<lambda>q. rectInfoAt cellStats gridCfg cw ch (sh, q)"
  let ?idx = "rectCellIndices sh (cols gridCfg) (fst pos) (snd pos)"
  have body: "(if ?idx = [] then Inr st
               else if jlt (?f pos) (snd st) then Inr (Some (?mk pos), ?f pos) else Inr st)
              = (Inr st' :: js_error + search_state)"
    using run unfolding tryPosition_eq [OF tryPosition_Inr_range [OF run]] .
  have below: "list_all (\<lambda>p. \<not> jlt (?f p) (snd st)) ps"
    using inv ok by (intro searchInv_below [where best = "fst st"])
      (auto simp: scanStateOk_def)
  show ?thesis
  proof (cases "?idx \<noteq> [] \<and> jlt (?f pos) (snd st)")
    case True
    then have st': "st' = (Some (?mk pos), ?f pos)"
      using body by auto
    have "firstMin ?f (ps @ [pos]) pos (?f pos)"
      using below True by (intro firstMin_snoc_new) auto
    then have "\<exists>k. ?mk pos = ?mk k \<and> firstMin ?f (ps @ [pos]) k (?f pos)"
      by blast
    then show ?thesis
      unfolding st' by (simp add: searchInv_def scanStateOk_def avgBusyness_rectInfoAt)
  next
    case False
    then have st': "st' = st"
      using body by (auto split: if_splits)
    have nlt: "\<not> jlt (?f pos) (snd st)"
    proof (cases "?idx = []")
      case True
      then have "?f pos = NaN"
        by (intro rectAvgBusyness_no_cells) simp
      then show ?thesis by simp
    next
      case False
      with \<open>\<not> (?idx \<noteq> [] \<and> jlt (?f pos) (snd st))\<close> show ?thesis by simp
    qed
    show ?thesis
    proof (cases "fst st")
      case None
      then show ?thesis
        using inv ok nlt unfolding st' by (simp add: searchInv_def scanStateOk_def)
    next
      case (Some info)
      then have v: "snd st = avgBusyness info"
        using ok by (simp add: scanStateOk_def)
      from Some inv obtain k where k: "info = ?mk k" "firstMin ?f ps k (avgBusyness info)"
        by (auto simp: searchInv_def)
      have "firstMin ?f (ps @ [pos]) k (avgBusyness info)"
        using k(2) nlt v by (intro firstMin_snoc_keep) auto
      then have "\<exists>k. info = ?mk k \<and> firstMin ?f (ps @ [pos]) k (avgBusyness info)"
        using k(1) by blast
      then show ?thesis
        using Some ok unfolding st' by (simp add: searchInv_def)
    qed
  qed
qed

lemma scanPositions_inv:
  assumes "scanPositions sh cellStats gridCfg cw ch qs st = Inr st'"
    and "searchInv (\<lambda>q. rectAvgBusyness cellStats (cols gridCfg) (sh, q))
           (\<lambda>q. rectInfoAt cellStats gridCfg cw ch (sh, q)) ps (fst st)"
    and "scanStateOk st"
  shows "searchInv (\<lambda>q. rectAvgBusyness cellStats (cols gridCfg) (sh, q))
           (\<lambda>q. rectInfoAt cellStats gridCfg cw ch (sh, q)) (ps @ qs) (fst st')"
  using assms
proof (induction qs arbitrary: st ps)
  case Nil
  then show ?case by simp
next
  case (Cons q qs)
  from Cons.prems(1) obtain st1 where
    step: "tryPosition sh cellStats gridCfg cw ch q st = Inr st1"
    and rest: "scanPositions sh cellStats gridCfg cw ch qs st1 = Inr st'"
    by (auto split: sum.splits)
  from tryPosition_inv [OF step Cons.prems(2,3)]
  have "searchInv (\<lambda>q. rectAvgBusyness cellStats (cols gridCfg) (sh, q))
          (\<lambda>q. rectInfoAt cellStats gridCfg cw ch (sh, q)) ((ps @ [q]) @ qs) (fst st')"
    by (intro Cons.IH [OF rest]) auto
  then show ?case by simp
qed

text \<open>What \<open>findBestRectForGivenShape\<close> returns, when it returns.\<close>

lemma findBestRectForGivenShape_inv:
  assumes "findBestRectForGivenShape sh cellStats gridCfg cw ch border = Inr res"
  shows "if shapeFits sh gridCfg border
         then searchInv (\<lambda>q. rectAvgBusyness cellStats (cols gridCfg) (sh, q))
                (\<lambda>q. rectInfoAt cellStats gridCfg cw ch (sh, q))
                (positionsToScan sh gridCfg border) res
         else res = None"
proof (cases "shapeFits sh gridCfg border")
  case False
  then show ?thesis
    using assms by (auto simp: findBestRectForGivenShape_def shapeFits_def)
next
  case True
  then obtain st where
    scan: "scanPositions sh cellStats gridCfg cw ch (positionsToScan sh gridCfg border) (None, PInf)
             = Inr st" and res: "res = fst st"
    using assms by (auto simp: findBestRectForGivenShape_def shapeFits_def split: sum.splits)
  have "searchInv (\<lambda>q. rectAvgBusyness cellStats (cols gridCfg) (sh, q))
          (\<lambda>q. rectInfoAt cellStats gridCfg cw ch (sh, q))
          ([] @ positionsToScan sh gridCfg border) (fst st)"
    by (rule scanPositions_inv [OF scan]) (simp_all add: searchInv_def scanStateOk_def)
  then show ?thesis
    using True res by simp
qed

subsection \<open>The loop over the shapes\<close>

lemma firstMin_map:
  assumes "firstMin (\<lambda>q. f (h q)) qs k v"
  shows "firstMin f (map h qs) (h k) v"
proof -
  from assms obtain pre post where
    split: "qs = pre @ k # post" and pre: "list_all (\<lambda>q. f (h q) \<noteq> v) pre"
    unfolding firstMin_def by blast
  have "map h qs = map h pre @ h k # map h post \<and> list_all (\<lambda>p. f p \<noteq> v) (map h pre)"
    using split pre by (simp add: list_all_iff)
  then have "\<exists>pre' post'. map h qs = pre' @ h k # post' \<and> list_all (\<lambda>p. f p \<noteq> v) pre'"
    by blast
  then show ?thesis
    using assms unfolding firstMin_def by (simp add: list_all_iff)
qed

lemma searchInv_map:
  assumes "searchInv (\<lambda>q. f (h q)) (\<lambda>q. mk (h q)) qs res"
  shows "searchInv f mk (map h qs) res"
proof (cases res)
  case None
  then show ?thesis
    using assms by (simp add: searchInv_def list_all_iff)
next
  case (Some info)
  with assms obtain k where "info = mk (h k)" "firstMin (\<lambda>q. f (h q)) qs k (avgBusyness info)"
    by (auto simp: searchInv_def)
  then have "\<exists>k'. info = mk k' \<and> firstMin f (map h qs) k' (avgBusyness info)"
    using firstMin_map [of f h qs k] by blast
  then show ?thesis
    using Some by (simp add: searchInv_def)
qed

lemma firstMin_append_keep:
  assumes "firstMin f ps k v" and "list_all (\<lambda>q. \<not> jlt (f q) v) qs"
  shows "firstMin f (ps @ qs) k v"
proof -
  from assms(1) obtain pre post where "ps = pre @ k # post" "list_all (\<lambda>p. f p \<noteq> v) pre"
    unfolding firstMin_def by blast
  then have "ps @ qs = pre @ k # (post @ qs) \<and> list_all (\<lambda>p. f p \<noteq> v) pre"
    by simp
  then have "\<exists>pre post. ps @ qs = pre @ k # post \<and> list_all (\<lambda>p. f p \<noteq> v) pre"
    by blast
  then show ?thesis
    using assms unfolding firstMin_def by simp
qed

lemma firstMin_append_new:
  assumes "firstMin f qs k v" and "list_all (\<lambda>p. \<not> jlt (f p) v \<and> f p \<noteq> v) ps"
  shows "firstMin f (ps @ qs) k v"
proof -
  from assms(1) obtain pre post where "qs = pre @ k # post" "list_all (\<lambda>p. f p \<noteq> v) pre"
    unfolding firstMin_def by blast
  then have "ps @ qs = (ps @ pre) @ k # post \<and> list_all (\<lambda>p. f p \<noteq> v) (ps @ pre)"
    using assms(2) by (auto simp: list_all_iff)
  then have "\<exists>pre post. ps @ qs = pre @ k # post \<and> list_all (\<lambda>p. f p \<noteq> v) pre"
    by blast
  moreover have "list_all (\<lambda>p. \<not> jlt (f p) v) (ps @ qs)"
    using assms unfolding firstMin_def by (auto simp: list_all_iff)
  ultimately show ?thesis
    using assms(1) unfolding firstMin_def by simp
qed

lemma searchInv_combine:
  assumes A: "searchInv f mk ps a" and B: "searchInv f mk qs res"
  shows "searchInv f mk (ps @ qs) (mergeBest a res)"
proof (cases res)
  case None
  then have qs: "list_all (\<lambda>q. \<not> jlt (f q) PInf) qs"
    using B by (simp add: searchInv_def)
  show ?thesis
  proof (cases a)
    case None
    then show ?thesis
      using A qs \<open>res = None\<close> by (simp add: searchInv_def mergeBest_def)
  next
    case (Some best)
    with A obtain k where k: "best = mk k" "firstMin f ps k (avgBusyness best)"
      by (auto simp: searchInv_def)
    have "list_all (\<lambda>q. \<not> jlt (f q) (avgBusyness best)) qs"
      using qs by (auto simp: list_all_iff dest: not_jlt_PInf_any)
    then have "firstMin f (ps @ qs) k (avgBusyness best)"
      by (rule firstMin_append_keep [OF k(2)])
    then have "\<exists>k. best = mk k \<and> firstMin f (ps @ qs) k (avgBusyness best)"
      using k(1) by blast
    then show ?thesis
      using Some \<open>res = None\<close> by (simp add: searchInv_def mergeBest_def)
  qed
next
  case (Some info)
  with B obtain k' where k': "info = mk k'" "firstMin f qs k' (avgBusyness info)"
    by (auto simp: searchInv_def)
  have fin': "jlt (avgBusyness info) PInf"
    using k'(2) by (simp add: firstMin_def)
  have qs_low: "list_all (\<lambda>q. \<not> jlt (f q) (avgBusyness info)) qs"
    using k'(2) by (simp add: firstMin_def)
  show ?thesis
  proof (cases a)
    case None
    then have "list_all (\<lambda>p. \<not> jlt (f p) PInf) ps"
      using A by (simp add: searchInv_def)
    then have "list_all (\<lambda>p. \<not> jlt (f p) (avgBusyness info) \<and> f p \<noteq> avgBusyness info) ps"
      using fin' by (auto simp: list_all_iff dest: not_jlt_PInf_any)
    then have "firstMin f (ps @ qs) k' (avgBusyness info)"
      by (rule firstMin_append_new [OF k'(2)])
    then have "\<exists>k. info = mk k \<and> firstMin f (ps @ qs) k (avgBusyness info)"
      using k'(1) by blast
    then show ?thesis
      using None Some by (simp add: searchInv_def mergeBest_def)
  next
    case (Some best)
    with A obtain k where k: "best = mk k" "firstMin f ps k (avgBusyness best)"
      by (auto simp: searchInv_def)
    have ps_low: "list_all (\<lambda>p. \<not> jlt (f p) (avgBusyness best)) ps"
      using k(2) by (simp add: firstMin_def)
    show ?thesis
    proof (cases "jlt (avgBusyness info) (avgBusyness best)")
      case True
      have "list_all (\<lambda>p. \<not> jlt (f p) (avgBusyness info) \<and> f p \<noteq> avgBusyness info) ps"
        using ps_low True by (auto simp: list_all_iff dest: jlt_trans)
      then have "firstMin f (ps @ qs) k' (avgBusyness info)"
        by (rule firstMin_append_new [OF k'(2)])
      then have "\<exists>k. info = mk k \<and> firstMin f (ps @ qs) k (avgBusyness info)"
        using k'(1) by blast
      then show ?thesis
        using True \<open>a = Some best\<close> \<open>res = Some info\<close> by (simp add: searchInv_def mergeBest_def)
    next
      case False
      have "list_all (\<lambda>q. \<not> jlt (f q) (avgBusyness best)) qs"
        using qs_low False fin' by (auto simp: list_all_iff dest: jlt_not_jlt_trans)
      then have "firstMin f (ps @ qs) k (avgBusyness best)"
        by (rule firstMin_append_keep [OF k(2)])
      then have "\<exists>k. best = mk k \<and> firstMin f (ps @ qs) k (avgBusyness best)"
        using k(1) by blast
      then show ?thesis
        using False \<open>a = Some best\<close> \<open>res = Some info\<close> by (simp add: searchInv_def mergeBest_def)
    qed
  qed
qed

lemma bestOverShapes_step:
  "bestOverShapes cellStats gridCfg cw ch border (sh # rest) overall =
     (case findBestRectForGivenShape sh cellStats gridCfg cw ch border of
        Inl e \<Rightarrow> Inl e
      | Inr res \<Rightarrow> bestOverShapes cellStats gridCfg cw ch border rest (mergeBest overall res))"
  by (simp add: mergeBest_def split: sum.splits option.splits)

lemma testedPairs_Cons:
  "testedPairs (sh # rest) gridCfg border =
     (if shapeFits sh gridCfg border then map (Pair sh) (positionsToScan sh gridCfg border) else [])
     @ testedPairs rest gridCfg border"
  by (simp add: testedPairs_def)

lemma bestOverShapes_inv:
  assumes "bestOverShapes cellStats gridCfg cw ch border shapes overall = Inr res"
    and "searchInv (rectAvgBusyness cellStats (cols gridCfg)) (rectInfoAt cellStats gridCfg cw ch)
           visited overall"
  shows "searchInv (rectAvgBusyness cellStats (cols gridCfg)) (rectInfoAt cellStats gridCfg cw ch)
           (visited @ testedPairs shapes gridCfg border) res"
  using assms
proof (induction shapes arbitrary: overall visited)
  case Nil
  then show ?case by (simp add: testedPairs_def)
next
  case (Cons sh rest)
  let ?F = "rectAvgBusyness cellStats (cols gridCfg)"
  let ?MK = "rectInfoAt cellStats gridCfg cw ch"
  let ?new = "if shapeFits sh gridCfg border
              then map (Pair sh) (positionsToScan sh gridCfg border) else []"
  from Cons.prems(1) obtain r where
    find: "findBestRectForGivenShape sh cellStats gridCfg cw ch border = Inr r"
    and rest: "bestOverShapes cellStats gridCfg cw ch border rest (mergeBest overall r) = Inr res"
    unfolding bestOverShapes_step by (auto split: sum.splits)
  have "searchInv ?F ?MK ?new r"
  proof (cases "shapeFits sh gridCfg border")
    case True
    then have "searchInv (\<lambda>q. ?F (Pair sh q)) (\<lambda>q. ?MK (Pair sh q))
                 (positionsToScan sh gridCfg border) r"
      using findBestRectForGivenShape_inv [OF find] by simp
    then show ?thesis
      using True by (simp add: searchInv_map)
  next
    case False
    then have "r = None"
      using findBestRectForGivenShape_inv [OF find] by simp
    then show ?thesis
      using False by (simp add: searchInv_def)
  qed
  then have "searchInv ?F ?MK (visited @ ?new) (mergeBest overall r)"
    by (rule searchInv_combine [OF Cons.prems(2)])
  then have "searchInv ?F ?MK ((visited @ ?new) @ testedPairs rest gridCfg border) res"
    by (rule Cons.IH [OF rest])
  then show ?case
    by (simp add: testedPairs_Cons)
qed

lemma rectInfoAt_fields:
  "shape (rectInfoAt cellStats gridCfg cw ch p) = fst p"
  "rStart (rectInfoAt cellStats gridCfg cw ch p) = fst (snd p)"
  "cStart (rectInfoAt cellStats gridCfg cw ch p) = snd (snd p)"
  by (simp_all add: rectInfoAt_def makeRect_def split: prod.splits)

text \<open>The result of the whole search, as the first minimum of the tested pairs.\<close>

lemma bestOverShapes_firstMin:
  assumes "bestOverShapes cellStats gridCfg cw ch border shapes None = Inr (Some best)"
  shows "best = rectInfoAt cellStats gridCfg cw ch (shape best, (rStart best, cStart best))
         \<and> firstMin (rectAvgBusyness cellStats (cols gridCfg)) (testedPairs shapes gridCfg border)
             (shape best, (rStart best, cStart best)) (avgBusyness best)"
proof -
  have "searchInv (rectAvgBusyness cellStats (cols gridCfg)) (rectInfoAt cellStats gridCfg cw ch)
          ([] @ testedPairs shapes gridCfg border) (Some best)"
    by (rule bestOverShapes_inv [OF assms]) (simp add: searchInv_def)
  then obtain k where k: "best = rectInfoAt cellStats gridCfg cw ch k"
    "firstMin (rectAvgBusyness cellStats (cols gridCfg)) (testedPairs shapes gridCfg border) k
       (avgBusyness best)"
    by (auto simp: searchInv_def)
  have "k = (shape best, (rStart best, cStart best))"
    unfolding k(1) rectInfoAt_fields by simp
  with k show ?thesis by simp
qed

lemma set_positionsToScan:
  "set (positionsToScan sh gridCfg border) =
     {(r0, c0). border \<le> r0 \<and> r0 \<le> rows gridCfg - rows sh - border
                \<and> border \<le> c0 \<and> c0 \<le> cols gridCfg - cols sh - border}"
  by (auto simp: positionsToScan_def Let_def)

lemma testedPairs_member:
  assumes "(sh, pos) \<in> set (testedPairs shapes gridCfg border)"
  shows "sh \<in> set shapes \<and> pos \<in> set (positionsToScan sh gridCfg border)"
  using assms by (auto simp: testedPairs_def split: if_splits)

subsection \<open>Evaluating the search on the example grids\<close>

lemma positionsToScan_rowOfThree:
  "positionsToScan oneCell \<lparr>rows = 1, cols = 3\<rparr> 0 = [(0, 0), (0, 1), (0, 2)]"
  by (simp add: positionsToScan_def oneCell_def upto_rec1)

lemma rectCellIndices_oneCell:
  "rectCellIndices oneCell gridCols r0 c0 = [r0 * gridCols + c0]"
  by (simp add: rectCellIndices_def oneCell_def)

lemma bestOverShapes_rowOfThree:
  "bestOverShapes rowOfThree \<lparr>rows = 1, cols = 3\<rparr> (Fin 10) (Fin 10) 0 [oneCell] None =
     Inr (Some \<lparr>rect_x = Fin 10, rect_y = Fin 0, rect_width = Fin 10, rect_height = Fin 10,
                rectAvgColor = \<lparr>red = Fin 0, green = Fin 0, blue = Fin 0\<rparr>,
                rStart = 0, cStart = 1, avgBusyness = Fin 3, shape = oneCell\<rparr>)"
  by (simp add: findBestRectForGivenShape_def positionsToScan_def upto_rec1 tryPosition_def
        rectCellIndices_def rowOfThree_def plainCell_def makeRect_def jint_def oneCell_def Let_def)

lemma testedPairs_rowOfThree:
  "testedPairs [oneCell] \<lparr>rows = 1, cols = 3\<rparr> 0 =
     [(oneCell, (0, 0)), (oneCell, (0, 1)), (oneCell, (0, 2))]"
  by (simp add: testedPairs_def positionsToScan_rowOfThree) (simp add: shapeFits_def oneCell_def)

lemma rectAvgBusyness_rowOfThree:
  "rectAvgBusyness rowOfThree 3 (oneCell, (0, 0)) = Fin 5"
  "rectAvgBusyness rowOfThree 3 (oneCell, (0, 1)) = Fin 3"
  "rectAvgBusyness rowOfThree 3 (oneCell, (0, 2)) = Fin 3"
  by (simp_all add: rectAvgBusyness_def rectCellIndices_oneCell rowOfThree_def plainCell_def)

lemma positionsToScan_threeByThree:
  "positionsToScan oneCell \<lparr>rows = 3, cols = 3\<rparr> 1 = [(1, 1)]"
  by (simp add: positionsToScan_def oneCell_def upto_rec1)

lemma bestOverShapes_threeByThree:
  "bestOverShapes threeByThree \<lparr>rows = 3, cols = 3\<rparr> (Fin 10) (Fin 10) 1 [oneCell] None =
     Inr (Some \<lparr>rect_x = Fin 10, rect_y = Fin 10, rect_width = Fin 10, rect_height = Fin 10,
                rectAvgColor = \<lparr>red = Fin 0, green = Fin 0, blue = Fin 0\<rparr>,
                rStart = 1, cStart = 1, avgBusyness = Fin 2, shape = oneCell\<rparr>)"
  by (simp add: findBestRectForGivenShape_def positionsToScan_def upto_rec1 tryPosition_def
        rectCellIndices_def threeByThree_def plainCell_def makeRect_def jint_def oneCell_def Let_def)

section \<open>Properties of the rectangle search\<close>

text \<open>
  C2: whenever the search over the shapes returns a rectangle, its average busyness is the
  average of the cells it covers and is minimal over all tested (shape, position) pairs:
  no tested pair lies below it, and it is at most the average of every pair whose average
  is a number. On ties the first pair wins: the shape and position returned are an entry
  of the list of tested pairs (shapes in generation order, positions row by row), and no
  earlier entry of that list has the same average.
\<close>

theorem bestOverShapes_minimum_first:
  assumes "bestOverShapes cellStats gridCfg cw ch border shapes None = Inr (Some best)"
  shows "(\<exists>pre post. testedPairs shapes gridCfg border
                       = pre @ (shape best, (rStart best, cStart best)) # post
            \<and> (\<forall>p \<in> set pre. rectAvgBusyness cellStats (cols gridCfg) p \<noteq> avgBusyness best))
         \<and> avgBusyness best
             = rectAvgBusyness cellStats (cols gridCfg) (shape best, (rStart best, cStart best))
         \<and> (\<forall>p \<in> set (testedPairs shapes gridCfg border).
               \<not> jlt (rectAvgBusyness cellStats (cols gridCfg) p) (avgBusyness best))
         \<and> (\<forall>p \<in> set (testedPairs shapes gridCfg border).
               rectAvgBusyness cellStats (cols gridCfg) p \<noteq> NaN
               \<longrightarrow> jle (avgBusyness best) (rectAvgBusyness cellStats (cols gridCfg) p))"
proof -
  let ?F = "rectAvgBusyness cellStats (cols gridCfg)"
  let ?k = "(shape best, (rStart best, cStart best))"
  have fm: "firstMin ?F (testedPairs shapes gridCfg border) ?k (avgBusyness best)"
    using bestOverShapes_firstMin [OF assms] by simp
  have first: "\<exists>pre post. testedPairs shapes gridCfg border = pre @ ?k # post
                 \<and> (\<forall>p \<in> set pre. ?F p \<noteq> avgBusyness best)"
    using fm by (simp add: firstMin_def list_all_iff)
  have val: "avgBusyness best = ?F ?k"
    using fm by (simp add: firstMin_def)
  have low: "\<forall>p \<in> set (testedPairs shapes gridCfg border). \<not> jlt (?F p) (avgBusyness best)"
    using fm by (simp add: firstMin_def list_all_iff)
  have "jlt (avgBusyness best) PInf"
    using fm by (simp add: firstMin_def)
  then have "avgBusyness best \<noteq> NaN"
    by auto
  then have le: "\<forall>p \<in> set (testedPairs shapes gridCfg border).
                   ?F p \<noteq> NaN \<longrightarrow> jle (avgBusyness best) (?F p)"
    using low by (auto intro: not_jlt_imp_jle)
  show ?thesis
    using first val low le by blast
qed

theorem bestOverShapes_minimum_first_witness:
  "bestOverShapes rowOfThree \<lparr>rows = 1, cols = 3\<rparr> (Fin 10) (Fin 10) 0 [oneCell] None =
     Inr (Some \<lparr>rect_x = Fin 10, rect_y = Fin 0, rect_width = Fin 10, rect_height = Fin 10,
                rectAvgColor = \<lparr>red = Fin 0, green = Fin 0, blue = Fin 0\<rparr>,
                rStart = 0, cStart = 1, avgBusyness = Fin 3, shape = oneCell\<rparr>)
   \<and> testedPairs [oneCell] \<lparr>rows = 1, cols = 3\<rparr> 0 =
       [(oneCell, (0, 0))] @ (oneCell, (0, 1)) # [(oneCell, (0, 2))]
   \<and> rectAvgBusyness rowOfThree 3 (oneCell, (0, 0)) \<noteq> Fin 3
   \<and> rectAvgBusyness rowOfThree 3 (oneCell, (0, 1)) = Fin 3
   \<and> jle (Fin 3) (rectAvgBusyness rowOfThree 3 (oneCell, (0, 0)))
   \<and> jle (Fin 3) (rectAvgBusyness rowOfThree 3 (oneCell, (0, 2)))"
proof -
  note run = bestOverShapes_rowOfThree
  have pairs: "testedPairs [oneCell] \<lparr>rows = 1, cols = 3\<rparr> 0 =
       [(oneCell, (0, 0))] @ (oneCell, (0, 1)) # [(oneCell, (0, 2))]"
    by (simp add: testedPairs_rowOfThree)
  have least: "\<forall>p \<in> set (testedPairs [oneCell] \<lparr>rows = 1, cols = 3\<rparr> 0).
      rectAvgBusyness rowOfThree 3 p \<noteq> NaN \<longrightarrow> jle (Fin 3) (rectAvgBusyness rowOfThree 3 p)"
    using bestOverShapes_minimum_first [OF run] by (simp add: rectAvgBusyness_rowOfThree)
  have le0: "jle (Fin 3) (rectAvgBusyness rowOfThree 3 (oneCell, (0, 0)))"
    using least by (simp add: testedPairs_rowOfThree rectAvgBusyness_rowOfThree)
  have le2: "jle (Fin 3) (rectAvgBusyness rowOfThree 3 (oneCell, (0, 2)))"
    using least by (simp add: testedPairs_rowOfThree rectAvgBusyness_rowOfThree)
  have ne: "rectAvgBusyness rowOfThree 3 (oneCell, (0, 0)) \<noteq> Fin 3"
    by (simp add: rectAvgBusyness_rowOfThree)
  show ?thesis
    by (intro conjI run pairs ne rectAvgBusyness_rowOfThree(2) le0 le2)
qed

text \<open>
  C6: any rectangle the search returns keeps the border exclusion on both axes:
  \<open>borderExclusion \<le> rStart\<close> and \<open>rStart + shape.rows \<le> rows - borderExclusion\<close>, and the
  same for the columns. This holds for every grid and every border exclusion, in
  particular for \<open>rows \<ge> 1\<close>, \<open>cols \<ge> 1\<close> and \<open>borderExclusion \<ge> 0\<close>.
\<close>

theorem bestOverShapes_within_border:
  assumes "bestOverShapes cellStats gridCfg cw ch border shapes None = Inr (Some best)"
  shows "border \<le> rStart best \<and> rStart best + rows (shape best) \<le> rows gridCfg - border
         \<and> border \<le> cStart best \<and> cStart best + cols (shape best) \<le> cols gridCfg - border"
proof -
  have "firstMin (rectAvgBusyness cellStats (cols gridCfg)) (testedPairs shapes gridCfg border)
          (shape best, (rStart best, cStart best)) (avgBusyness best)"
    using bestOverShapes_firstMin [OF assms] by simp
  then have "(shape best, (rStart best, cStart best)) \<in> set (testedPairs shapes gridCfg border)"
    by (auto simp: firstMin_def)
  then have "(rStart best, cStart best) \<in> set (positionsToScan (shape best) gridCfg border)"
    by (simp add: testedPairs_member)
  then show ?thesis
    by (simp add: set_positionsToScan)
qed

theorem bestOverShapes_within_border_witness:
  "bestOverShapes threeByThree \<lparr>rows = 3, cols = 3\<rparr> (Fin 10) (Fin 10) 1 [oneCell] None =
     Inr (Some \<lparr>rect_x = Fin 10, rect_y = Fin 10, rect_width = Fin 10, rect_height = Fin 10,
                rectAvgColor = \<lparr>red = Fin 0, green = Fin 0, blue = Fin 0\<rparr>,
                rStart = 1, cStart = 1, avgBusyness = Fin 2, shape = oneCell\<rparr>)
   \<and> (1::int) \<le> 1 \<and> (1::int) + rows oneCell \<le> 3 - 1
   \<and> (1::int) + cols oneCell \<le> 3 - 1"
proof -
  note run = bestOverShapes_threeByThree
  have "(1::int) \<le> 1 \<and> (1::int) + rows oneCell \<le> 3 - 1 \<and> (1::int) + cols oneCell \<le> 3 - 1"
    using bestOverShapes_within_border [OF run] by simp
  then show ?thesis
    by (intro conjI run) simp_all
qed

section \<open>Word wrap\<close>

lemma splitSpace_not_Nil [simp]: "splitSpace s \<noteq> []"
  by (induction s) (auto split: list.splits)

lemma splitSpace_append_space:
  "splitSpace (a @ CHR '' '' # c) = splitSpace a @ splitSpace c"
proof (induction a)
  case Nil
  show ?case by simp
next
  case (Cons ch a)
  obtain w ws where "splitSpace a = w # ws"
    by (cases "splitSpace a") auto
  then show ?case
    using Cons.IH by simp
qed

lemma splitSpace_no_space:
  assumes "CHR '' '' \<notin> set w"
  shows "splitSpace w = [w]"
  using assms by (induction w) auto

lemma splitSpace_words_no_space:
  "w \<in> set (splitSpace s) \<Longrightarrow> CHR '' '' \<notin> set w"
proof (induction s arbitrary: w)
  case Nil
  then show ?case by simp
next
  case (Cons ch s)
  obtain v vs where v: "splitSpace s = v # vs"
    by (cases "splitSpace s") auto
  show ?case
  proof (cases "ch = CHR '' ''")
    case True
    then show ?thesis
      using Cons by auto
  next
    case False
    then have "w = ch # v \<or> w \<in> set vs"
      using Cons.prems v by simp
    then show ?thesis
      using False Cons.IH [of v] Cons.IH [of w] v by auto
  qed
qed

lemma wordsOf_word:
  assumes "CHR '' '' \<notin> set w"
  shows "wordsOf w = (if w \<noteq> [] then [w] else [])"
  using assms by (simp add: wordsOf_def splitSpace_no_space)

lemma wordsOf_append_space: "wordsOf (a @ CHR '' '' # c) = wordsOf a @ wordsOf c"
  by (simp add: wordsOf_def splitSpace_append_space)

lemma wordsOf_Nil [simp]: "wordsOf [] = []"
  by (simp add: wordsOf_def)

lemma wordsOf_joinSpace: "wordsOf (joinSpace ls) = concat (map wordsOf ls)"
  by (induction ls rule: joinSpace.induct) (simp_all add: wordsOf_append_space)

text \<open>
  Once a line is committed or the current line is not empty, the loop never breaks: the
  words of its result are the words already on lines, those of the current line, and the
  remaining non-empty words, whatever their widths.
\<close>

lemma wrapLoop_words_committed:
  assumes "lines \<noteq> [] \<or> currentLine \<noteq> []"
    and "\<forall>w \<in> set ws. CHR '' '' \<notin> set w"
  shows "concat (map wordsOf (wrapLoop measureText maxWidth ws lines currentLine)) =
           concat (map wordsOf lines) @ wordsOf currentLine @ filter (\<lambda>w. w \<noteq> []) ws"
  using assms
proof (induction ws arbitrary: lines currentLine)
  case Nil
  show ?case by simp
next
  case (Cons word rest)
  let ?test = "currentLine @ (if currentLine \<noteq> [] then '' '' else []) @ word"
  let ?lines' = "if currentLine \<noteq> [] then lines @ [currentLine] else lines"
  have word: "wordsOf word = (if word \<noteq> [] then [word] else [])"
    using Cons.prems(2) by (intro wordsOf_word) simp
  have rest: "\<forall>w \<in> set rest. CHR '' '' \<notin> set w"
    using Cons.prems(2) by simp
  have test: "wordsOf ?test = wordsOf currentLine @ wordsOf word"
    by (simp add: wordsOf_append_space)
  have lines': "concat (map wordsOf ?lines') = concat (map wordsOf lines) @ wordsOf currentLine"
    by simp
  have committed: "?lines' \<noteq> []"
    using Cons.prems(1) by auto
  show ?case
  proof (cases "jlt (measureText ?test) maxWidth")
    case True
    then have step: "wrapLoop measureText maxWidth (word # rest) lines currentLine
               = wrapLoop measureText maxWidth rest lines ?test"
      by (simp add: Let_def)
    have "lines \<noteq> [] \<or> ?test \<noteq> []"
      using Cons.prems(1) by auto
    then show ?thesis
      unfolding step using Cons.IH [OF _ rest, of lines ?test] test word by simp
  next
    case False
    then have step: "wrapLoop measureText maxWidth (word # rest) lines currentLine
               = wrapLoop measureText maxWidth rest ?lines' word"
      using committed by (simp add: Let_def)
    have "?lines' \<noteq> [] \<or> word \<noteq> []"
      using committed by simp
    then show ?thesis
      unfolding step using Cons.IH [OF _ rest, of ?lines' word] lines' word by simp
  qed
qed

text \<open>
  Before anything is committed (only empty pieces so far), the loop breaks on a piece
  wider than the maximum width. It does not when the empty piece and the first non-empty
  word are not wider.
\<close>

lemma wrapLoop_words_start:
  assumes "\<not> jgt (measureText []) maxWidth"
    and "filter (\<lambda>w. w \<noteq> []) ws \<noteq> []
           \<longrightarrow> \<not> jgt (measureText (hd (filter (\<lambda>w. w \<noteq> []) ws))) maxWidth"
    and "\<forall>w \<in> set ws. CHR '' '' \<notin> set w"
  shows "concat (map wordsOf (wrapLoop measureText maxWidth ws [] [])) = filter (\<lambda>w. w \<noteq> []) ws"
  using assms
proof (induction ws)
  case Nil
  show ?case by simp
next
  case (Cons word rest)
  have rest: "\<forall>w \<in> set rest. CHR '' '' \<notin> set w"
    using Cons.prems(3) by simp
  have nobreak: "\<not> jgt (measureText word) maxWidth"
    using Cons.prems(1,2) by (cases "word = []") simp_all
  have step: "wrapLoop measureText maxWidth (word # rest) [] []
              = wrapLoop measureText maxWidth rest [] word"
    using nobreak by (simp add: Let_def)
  show ?case
  proof (cases "word = []")
    case True
    then have "filter (\<lambda>w. w \<noteq> []) rest \<noteq> []
           \<longrightarrow> \<not> jgt (measureText (hd (filter (\<lambda>w. w \<noteq> []) rest))) maxWidth"
      using Cons.prems(2) by simp
    then have "concat (map wordsOf (wrapLoop measureText maxWidth rest [] []))
               = filter (\<lambda>w. w \<noteq> []) rest"
      using Cons.prems(1) rest by (intro Cons.IH) auto
    then show ?thesis
      unfolding step using True by simp
  next
    case False
    have "wordsOf word = [word]"
      using Cons.prems(3) False wordsOf_word [of word] by simp
    then show ?thesis
      unfolding step using False wrapLoop_words_committed [OF _ rest, of "[]" word]
      by simp
  qed
qed

lemma wordsOf_pieces: "splitSpace s = first # rest \<Longrightarrow> wordsOf s = filter (\<lambda>w. w \<noteq> []) (first # rest)"
  by (simp add: wordsOf_def)

lemma wrapTextCanvas_words:
  assumes "\<not> isBlank txt" and "\<not> jle maxWidth (Fin 0)"
    and "\<not> jgt (measureText (hd (splitSpace txt))) maxWidth"
    and "\<not> jgt (measureText (hd (wordsOf txt))) maxWidth"
  shows "wordsOf (joinSpace (wrapTextCanvas measureText txt maxWidth)) = wordsOf txt"
proof -
  obtain first rest where sp: "splitSpace txt = first # rest"
    by (cases "splitSpace txt") auto
  have fits: "\<not> jgt (measureText first) maxWidth"
    using assms(3) sp by simp
  have nospace: "\<forall>w \<in> set (first # rest). CHR '' '' \<notin> set w"
    using splitSpace_words_no_space sp by metis
  then have rest: "\<forall>w \<in> set rest. CHR '' '' \<notin> set w"
    by simp
  have words: "wordsOf txt = filter (\<lambda>w. w \<noteq> []) (first # rest)"
    using sp by (rule wordsOf_pieces)
  have run: "wrapTextCanvas measureText txt maxWidth = wrapLoop measureText maxWidth rest [] first"
    using assms(1,2) sp fits by (simp add: wrapTextCanvas_def)
  have "concat (map wordsOf (wrapLoop measureText maxWidth rest [] first))
        = filter (\<lambda>w. w \<noteq> []) (first # rest)"
  proof (cases "first = []")
    case True
    have "filter (\<lambda>w. w \<noteq> []) rest \<noteq> []
           \<longrightarrow> \<not> jgt (measureText (hd (filter (\<lambda>w. w \<noteq> []) rest))) maxWidth"
      using assms(4) words True by simp
    then show ?thesis
      using True fits rest wrapLoop_words_start [of measureText maxWidth rest] by simp
  next
    case False
    have "wordsOf first = [first]"
      using nospace False wordsOf_word [of first] by simp
    then show ?thesis
      using False wrapLoop_words_committed [OF _ rest, of "[]" first measureText maxWidth]
      by simp
  qed
  then show ?thesis
    unfolding run words by (simp add: wordsOf_joinSpace)
qed

text \<open>
  A word that no line can share: committed lines stay, a current line that nothing can
  extend becomes a line, and so does every such word the loop reaches.
\<close>

lemma wrapLoop_keeps_lines:
  "set lines \<subseteq> set (wrapLoop measureText maxWidth ws lines currentLine)"
proof (induction ws arbitrary: lines currentLine)
  case Nil
  show ?case by auto
next
  case (Cons word rest)
  let ?test = "currentLine @ (if currentLine \<noteq> [] then '' '' else []) @ word"
  let ?lines' = "if currentLine \<noteq> [] then lines @ [currentLine] else lines"
  have keep: "set lines \<subseteq> set ?lines'"
    by auto
  show ?case
  proof (cases "jlt (measureText ?test) maxWidth")
    case True
    then have "wrapLoop measureText maxWidth (word # rest) lines currentLine
               = wrapLoop measureText maxWidth rest lines ?test"
      by (simp add: Let_def)
    then show ?thesis using Cons.IH [of lines ?test] by simp
  next
    case False
    show ?thesis
    proof (cases "jgt (measureText word) maxWidth \<and> length ?lines' = 0")
      case True
      then have "wrapLoop measureText maxWidth (word # rest) lines currentLine = ?lines' @ [word]"
        using False by (simp add: Let_def)
      then show ?thesis using keep by auto
    next
      case go: False
      then have "wrapLoop measureText maxWidth (word # rest) lines currentLine
            = wrapLoop measureText maxWidth rest ?lines' word"
        using False by (auto simp: Let_def)
      then show ?thesis using Cons.IH [of ?lines' word] keep by auto
    qed
  qed
qed

lemma wrapLoop_current_own_line:
  assumes "currentLine \<noteq> []"
    and "\<forall>c. \<not> jlt (measureText (currentLine @ CHR '' '' # c)) maxWidth"
  shows "currentLine \<in> set (wrapLoop measureText maxWidth ws lines currentLine)"
proof (cases ws)
  case Nil
  then show ?thesis using assms(1) by simp
next
  case (Cons word rest)
  have nofit: "\<not> jlt (measureText (currentLine @ CHR '' '' # word)) maxWidth"
    using assms(2) by simp
  have "wrapLoop measureText maxWidth (word # rest) lines currentLine
          = wrapLoop measureText maxWidth rest (lines @ [currentLine]) word"
    using assms(1) nofit by (simp add: Let_def)
  moreover have "currentLine \<in> set (lines @ [currentLine])"
    by simp
  ultimately show ?thesis
    unfolding Cons using wrapLoop_keeps_lines [of "lines @ [currentLine]"] by auto
qed

lemma wrapLoop_word_own_line:
  assumes "w \<in> set ws" and "w \<noteq> []"
    and "\<forall>a. \<not> jlt (measureText (a @ CHR '' '' # w)) maxWidth"
    and "\<forall>c. \<not> jlt (measureText (w @ CHR '' '' # c)) maxWidth"
    and "lines \<noteq> [] \<or> currentLine \<noteq> []"
  shows "w \<in> set (wrapLoop measureText maxWidth ws lines currentLine)"
  using assms(1,5)
proof (induction ws arbitrary: lines currentLine)
  case Nil
  then show ?case by simp
next
  case (Cons word rest)
  let ?test = "currentLine @ (if currentLine \<noteq> [] then '' '' else []) @ word"
  let ?lines' = "if currentLine \<noteq> [] then lines @ [currentLine] else lines"
  have committed: "?lines' \<noteq> []"
    using Cons.prems(2) by auto
  have nofit: "\<not> jlt (measureText ?test) maxWidth \<Longrightarrow>
      wrapLoop measureText maxWidth (word # rest) lines currentLine
        = wrapLoop measureText maxWidth rest ?lines' word"
    using committed by (simp add: Let_def)
  have fit: "jlt (measureText ?test) maxWidth \<Longrightarrow>
      wrapLoop measureText maxWidth (word # rest) lines currentLine
        = wrapLoop measureText maxWidth rest lines ?test"
    by (simp add: Let_def)
  show ?case
  proof (cases "word = w")
    case True
    have own: "w \<in> set (wrapLoop measureText maxWidth rest ls w)" for ls
      using assms(2,4) by (rule wrapLoop_current_own_line)
    show ?thesis
    proof (cases "jlt (measureText ?test) maxWidth")
      case False
      then show ?thesis
        using nofit own [of ?lines'] True by simp
    next
      case fits: True
      have "currentLine = []"
      proof (rule ccontr)
        assume "currentLine \<noteq> []"
        then have "?test = currentLine @ CHR '' '' # w"
          using True by simp
        then show False
          using fits assms(3) by simp
      qed
      then have "?test = w"
        using True by simp
      then show ?thesis
        using fit [OF fits] own [of lines] by simp
    qed
  next
    case False
    then have mem: "w \<in> set rest"
      using Cons.prems(1) by simp
    show ?thesis
    proof (cases "jlt (measureText ?test) maxWidth")
      case True
      have "lines \<noteq> [] \<or> ?test \<noteq> []"
        using Cons.prems(2) by auto
      then show ?thesis
        using fit [OF True] Cons.IH [OF mem, of lines ?test] by simp
    next
      case False
      have "?lines' \<noteq> [] \<or> word \<noteq> []"
        using committed by simp
      then show ?thesis
        using nofit [OF False] Cons.IH [OF mem, of ?lines' word] by simp
    qed
  qed
qed

lemma wrapLoop_word_own_line_start:
  assumes "w \<in> set ws" and "w \<noteq> []"
    and "\<forall>a. \<not> jlt (measureText (a @ CHR '' '' # w)) maxWidth"
    and "\<forall>c. \<not> jlt (measureText (w @ CHR '' '' # c)) maxWidth"
    and "\<not> jgt (measureText []) maxWidth"
    and "filter (\<lambda>w. w \<noteq> []) ws \<noteq> []
           \<longrightarrow> \<not> jgt (measureText (hd (filter (\<lambda>w. w \<noteq> []) ws))) maxWidth"
  shows "w \<in> set (wrapLoop measureText maxWidth ws [] [])"
  using assms(1,6)
proof (induction ws)
  case Nil
  then show ?case by simp
next
  case (Cons word rest)
  have nobreak: "\<not> jgt (measureText word) maxWidth"
    using assms(5) Cons.prems(2) by (cases "word = []") simp_all
  have step: "wrapLoop measureText maxWidth (word # rest) [] []
              = wrapLoop measureText maxWidth rest [] word"
    using nobreak by (simp add: Let_def)
  show ?case
  proof (cases "word = []")
    case True
    then have "w \<in> set rest"
      using Cons.prems(1) assms(2) by auto
    moreover have "filter (\<lambda>w. w \<noteq> []) rest \<noteq> []
           \<longrightarrow> \<not> jgt (measureText (hd (filter (\<lambda>w. w \<noteq> []) rest))) maxWidth"
      using Cons.prems(2) True by simp
    ultimately show ?thesis
      unfolding step using True Cons.IH by simp
  next
    case False
    show ?thesis
    proof (cases "word = w")
      case True
      then show ?thesis
        unfolding step using wrapLoop_current_own_line [OF assms(2,4)] by simp
    next
      case other: False
      then have "w \<in> set rest"
        using Cons.prems(1) by simp
      then show ?thesis
        unfolding step using False
        by (intro wrapLoop_word_own_line assms(2,3,4)) simp_all
    qed
  qed
qed

lemma wrapTextCanvas_word_own_line:
  assumes "\<not> isBlank txt" and "\<not> jle maxWidth (Fin 0)"
    and "\<not> jgt (measureText (hd (splitSpace txt))) maxWidth"
    and "\<not> jgt (measureText (hd (wordsOf txt))) maxWidth"
    and "w \<in> set (wordsOf txt)"
    and "\<forall>a. \<not> jlt (measureText (a @ CHR '' '' # w)) maxWidth"
    and "\<forall>c. \<not> jlt (measureText (w @ CHR '' '' # c)) maxWidth"
  shows "w \<in> set (wrapTextCanvas measureText txt maxWidth)"
proof -
  obtain first rest where sp: "splitSpace txt = first # rest"
    by (cases "splitSpace txt") auto
  have fits: "\<not> jgt (measureText first) maxWidth"
    using assms(3) sp by simp
  have words: "wordsOf txt = filter (\<lambda>w. w \<noteq> []) (first # rest)"
    using sp by (rule wordsOf_pieces)
  have word: "w \<noteq> []" and mem: "w = first \<or> w \<in> set rest"
    using assms(5) unfolding words by (auto split: if_splits)
  have run: "wrapTextCanvas measureText txt maxWidth = wrapLoop measureText maxWidth rest [] first"
    using assms(1,2) sp fits by (simp add: wrapTextCanvas_def)
  show ?thesis
  proof (cases "w = first")
    case True
    then show ?thesis
      unfolding run using wrapLoop_current_own_line [OF word assms(7)] by simp
  next
    case other: False
    then have rest: "w \<in> set rest"
      using mem by simp
    show ?thesis
    proof (cases "first = []")
      case True
      have "filter (\<lambda>w. w \<noteq> []) rest \<noteq> []
             \<longrightarrow> \<not> jgt (measureText (hd (filter (\<lambda>w. w \<noteq> []) rest))) maxWidth"
        using assms(4) words True by simp
      then show ?thesis
        unfolding run using True fits
          wrapLoop_word_own_line_start [OF rest word assms(6,7)] by simp
    next
      case False
      then show ?thesis
        unfolding run
        using wrapLoop_word_own_line [OF rest word assms(6,7), where lines = "[]"
            and currentLine = first]
        by simp
    qed
  qed
qed

lemma wrapTextCanvas_overlong_first:
  assumes "\<not> isBlank txt" and "\<not> jle maxWidth (Fin 0)"
    and "jgt (measureText (hd (splitSpace txt))) maxWidth"
  shows "wrapTextCanvas measureText txt maxWidth = [hd (splitSpace txt)]"
proof -
  obtain first rest where sp: "splitSpace txt = first # rest"
    by (cases "splitSpace txt") auto
  then show ?thesis
    using assms by (simp add: wrapTextCanvas_def)
qed

lemma jgt_zero_not_jle: "jgt maxWidth (Fin 0) \<Longrightarrow> \<not> jle maxWidth (Fin 0)"
  by (cases maxWidth) (simp_all add: jgt_def)

lemma splitSpace_example: "splitSpace ''ab cd ef'' = [''ab'', ''cd'', ''ef'']"
  by simp

lemma isBlank_example: "\<not> isBlank ''ab cd ef''"
  by (simp add: isBlank_def isWhitespace_def)

lemma wrapTextCanvas_example:
  "wrapTextCanvas unitChars ''ab cd ef'' (Fin 6) = [''ab cd'', ''ef'']"
  by (simp add: wrapTextCanvas_def isBlank_example jgt_def unitChars_def Let_def)

lemma isBlank_a_bbbb_c: "\<not> isBlank ''a bbbb c''"
  by (simp add: isBlank_def isWhitespace_def)

lemma splitSpace_a_bbbb_c: "splitSpace ''a bbbb c'' = [''a'', ''bbbb'', ''c'']"
  by simp

lemma wordsOf_a_bbbb_c: "wordsOf ''a bbbb c'' = [''a'', ''bbbb'', ''c'']"
  by (simp add: wordsOf_def)

lemma wrapTextCanvas_a_bbbb_c:
  "wrapTextCanvas unitChars ''a bbbb c'' (Fin 3) = [''a'', ''bbbb'', ''c'']"
  by (simp add: wrapTextCanvas_def isBlank_a_bbbb_c jgt_def unitChars_def Let_def)

text \<open>
  C3, as the code has it: for every non-blank input string, every positive maximum width
  and every text-measure function, if neither the first space-separated piece of the input
  nor its first non-empty word measures wider than the maximum width, then the lines joined
  by single spaces have the same whitespace-normalized text as the input: no word is
  dropped or duplicated, however wide the later words are. Then also every word that
  cannot share a line (no text holding it next to a space measures below the maximum
  width, as for a word wider than the maximum under a measure that grows with the text)
  is a line of the result on its own, and wrapping goes on with the words after it. If the
  first piece is wider than the maximum width, the result is that piece alone.
\<close>

theorem wrapTextCanvas_keeps_words:
  assumes "\<not> isBlank txt" and "jgt maxWidth (Fin 0)"
  shows "(\<not> jgt (measureText (hd (splitSpace txt))) maxWidth
            \<and> \<not> jgt (measureText (hd (wordsOf txt))) maxWidth
            \<longrightarrow> normalizedText (joinSpace (wrapTextCanvas measureText txt maxWidth))
                  = normalizedText txt
                \<and> (\<forall>w \<in> set (wordsOf txt).
                     (\<forall>a. \<not> jlt (measureText (a @ CHR '' '' # w)) maxWidth)
                     \<and> (\<forall>c. \<not> jlt (measureText (w @ CHR '' '' # c)) maxWidth)
                     \<longrightarrow> w \<in> set (wrapTextCanvas measureText txt maxWidth)))
         \<and> (jgt (measureText (hd (splitSpace txt))) maxWidth
            \<longrightarrow> wrapTextCanvas measureText txt maxWidth = [hd (splitSpace txt)])"
proof -
  have pos: "\<not> jle maxWidth (Fin 0)"
    using assms(2) by (rule jgt_zero_not_jle)
  have "normalizedText (joinSpace (wrapTextCanvas measureText txt maxWidth)) = normalizedText txt"
    if "\<not> jgt (measureText (hd (splitSpace txt))) maxWidth"
      and "\<not> jgt (measureText (hd (wordsOf txt))) maxWidth"
    using wrapTextCanvas_words [of "txt" maxWidth measureText, OF assms(1) pos that]
    by (simp add: normalizedText_def)
  moreover have "w \<in> set (wrapTextCanvas measureText txt maxWidth)"
    if "\<not> jgt (measureText (hd (splitSpace txt))) maxWidth"
      and "\<not> jgt (measureText (hd (wordsOf txt))) maxWidth"
      and "w \<in> set (wordsOf txt)"
      and "\<forall>a. \<not> jlt (measureText (a @ CHR '' '' # w)) maxWidth"
      and "\<forall>c. \<not> jlt (measureText (w @ CHR '' '' # c)) maxWidth" for w
    using assms(1) pos that by (rule wrapTextCanvas_word_own_line)
  moreover have "wrapTextCanvas measureText txt maxWidth = [hd (splitSpace txt)]"
    if "jgt (measureText (hd (splitSpace txt))) maxWidth"
    using assms(1) pos that by (rule wrapTextCanvas_overlong_first)
  ultimately show ?thesis by blast
qed

theorem wrapTextCanvas_keeps_words_witness:
  "\<not> isBlank ''a bbbb c'' \<and> jgt (Fin 3) (Fin 0)
   \<and> \<not> jgt (unitChars (hd (splitSpace ''a bbbb c''))) (Fin 3)
   \<and> \<not> jgt (unitChars (hd (wordsOf ''a bbbb c''))) (Fin 3)
   \<and> ''bbbb'' \<in> set (wordsOf ''a bbbb c'')
   \<and> jgt (unitChars ''bbbb'') (Fin 3)
   \<and> wrapTextCanvas unitChars ''a bbbb c'' (Fin 3) = [''a'', ''bbbb'', ''c'']
   \<and> normalizedText (joinSpace (wrapTextCanvas unitChars ''a bbbb c'' (Fin 3)))
       = normalizedText ''a bbbb c''
   \<and> ''bbbb'' \<in> set (wrapTextCanvas unitChars ''a bbbb c'' (Fin 3))"
proof -
  have pos: "jgt (Fin 3) (Fin 0)"
    by (simp add: jgt_def)
  have first: "\<not> jgt (unitChars (hd (splitSpace ''a bbbb c''))) (Fin 3)"
    unfolding splitSpace_a_bbbb_c by (simp add: jgt_def unitChars_def)
  have word: "\<not> jgt (unitChars (hd (wordsOf ''a bbbb c''))) (Fin 3)"
    unfolding wordsOf_a_bbbb_c by (simp add: jgt_def unitChars_def)
  have mem: "''bbbb'' \<in> set (wordsOf ''a bbbb c'')"
    unfolding wordsOf_a_bbbb_c by simp
  have wide: "jgt (unitChars ''bbbb'') (Fin 3)"
    by (simp add: jgt_def unitChars_def)
  have before: "\<forall>a. \<not> jlt (unitChars (a @ CHR '' '' # ''bbbb'')) (Fin 3)"
    by (simp add: unitChars_def)
  have after: "\<forall>c. \<not> jlt (unitChars (''bbbb'' @ CHR '' '' # c)) (Fin 3)"
    by (simp add: unitChars_def)
  note th = wrapTextCanvas_keeps_words [OF isBlank_a_bbbb_c pos, of unitChars]
  have same: "normalizedText (joinSpace (wrapTextCanvas unitChars ''a bbbb c'' (Fin 3)))
          = normalizedText ''a bbbb c''"
    using th first word by blast
  have own: "''bbbb'' \<in> set (wrapTextCanvas unitChars ''a bbbb c'' (Fin 3))"
    using th first word mem before after by blast
  show ?thesis
    by (intro conjI isBlank_a_bbbb_c pos first word mem wide wrapTextCanvas_a_bbbb_c same own)
qed

text \<open>
  C3 as the specification states it fails: with one unit of width per character
  and a maximum width of 3, the text \<open>aaaa b\<close> wraps to the single line \<open>aaaa\<close>; the word
  \<open>b\<close> after the overlong first word is dropped.
\<close>

theorem wrapTextCanvas_drops_words:
  "wrapTextCanvas unitChars ''aaaa b'' (Fin 3) = [''aaaa'']
   \<and> normalizedText ''aaaa b'' = ''aaaa b''
   \<and> joinSpace (wrapTextCanvas unitChars ''aaaa b'' (Fin 3))
       \<noteq> normalizedText ''aaaa b''"
proof -
  have wrap: "wrapTextCanvas unitChars ''aaaa b'' (Fin 3) = [''aaaa'']"
    by (simp add: wrapTextCanvas_def isBlank_def isWhitespace_def jgt_def unitChars_def)
  have norm: "normalizedText ''aaaa b'' = ''aaaa b''"
    by (simp add: normalizedText_def wordsOf_def)
  show ?thesis
    unfolding wrap norm by simp
qed

text \<open>
  C10: for every maximum width that is at most zero, \<open>wrapTextCanvas\<close> returns no line,
  whatever the text and the measure function.
\<close>

theorem wrapTextCanvas_nonpositive_width:
  assumes "jle maxWidth (Fin 0)"
  shows "wrapTextCanvas measureText txt maxWidth = []"
  using assms by (simp add: wrapTextCanvas_def)

theorem wrapTextCanvas_nonpositive_width_witness:
  "jle (Fin (- 5)) (Fin 0)
   \<and> wrapTextCanvas unitChars ''ab cd ef'' (Fin (- 5)) = []"
proof -
  have neg: "jle (Fin (- 5)) (Fin 0)"
    by simp
  show ?thesis
    using neg wrapTextCanvas_nonpositive_width [OF neg] by blast
qed

section \<open>Rendering\<close>

lemma renderTextWithDynamicSizing_eq:
  "renderTextWithDynamicSizing measureText textToRender res w h =
     (case (if jgt (availWidthOf res) (Fin 0) \<and> jgt (availHeightOf res) (Fin 0)
            then fitFontSize measureText textToRender (availWidthOf res) (availHeightOf res)
                   (startSizeOf res)
            else Some None) of
        None \<Rightarrow> None
      | Some None \<Rightarrow> Some (scrimOps res)
      | Some (Some (foundSize, wrappedLines, textBlockHeight)) \<Rightarrow>
          Some (scrimOps res
                @ (if length wrappedLines > 0
                   then textOps res w h foundSize wrappedLines textBlockHeight else [])))"
  by (simp add: renderTextWithDynamicSizing_def Let_def availWidthOf_def availHeightOf_def
        startSizeOf_def)

lemma scrimOps_only_rects: "filter isFillRect (scrimOps res) = scrimOps res"
  by (simp add: scrimOps_def Let_def)

lemma scrimOps_no_text: "filter isFillText (scrimOps res) = []"
  by (simp add: scrimOps_def Let_def)

lemma textOps_no_rects: "filter isFillRect (textOps res w h fsize ls bh) = []"
  by (simp add: textOps_def Let_def filter_empty_conv)

lemma render_rects:
  assumes "renderTextWithDynamicSizing measureText textToRender res w h = Some ops"
  shows "filter isFillRect ops = scrimOps res"
  using assms unfolding renderTextWithDynamicSizing_eq
  by (auto simp: scrimOps_only_rects textOps_no_rects split: option.splits if_splits)

text \<open>The font size loop ends without a fit when no size of the descending sequence fits.\<close>

lemma fitFontSize_no_fit_Fin:
  assumes "s < 8 + real n"
    and "\<forall>k::nat. 8 \<le> s - real k \<longrightarrow> \<not> fst (fitsAt measureText textToRender aw ah (Fin (s - real k)))"
  shows "fitFontSize measureText textToRender aw ah (Fin s) = Some None"
  using assms
proof (induction n arbitrary: s)
  case 0
  then show ?case
    by (subst fitFontSize.simps) (simp add: jge_def MIN_RENDER_FONT_SIZE_def)
next
  case (Suc n)
  show ?case
  proof (cases "8 \<le> s")
    case False
    then show ?thesis
      by (subst fitFontSize.simps) (simp add: jge_def MIN_RENDER_FONT_SIZE_def)
  next
    case True
    have nofit: "\<not> fst (fitsAt measureText textToRender aw ah (Fin s))"
      using Suc.prems(2) [rule_format, of 0] True by simp
    have "\<forall>k::nat. 8 \<le> (s - 1) - real k
            \<longrightarrow> \<not> fst (fitsAt measureText textToRender aw ah (Fin ((s - 1) - real k)))"
    proof (intro allI impI)
      fix k :: nat
      assume "8 \<le> (s - 1) - real k"
      then have "8 \<le> s - real (Suc k)" by simp
      then have "\<not> fst (fitsAt measureText textToRender aw ah (Fin (s - real (Suc k))))"
        using Suc.prems(2) by blast
      moreover have "s - real (Suc k) = (s - 1) - real k" by simp
      ultimately show "\<not> fst (fitsAt measureText textToRender aw ah (Fin ((s - 1) - real k)))"
        by metis
    qed
    moreover have "s - 1 < 8 + real n"
      using Suc.prems(1) by simp
    ultimately have next_size: "fitFontSize measureText textToRender aw ah (Fin (s - 1)) = Some None"
      by (intro Suc.IH)
    obtain ok ls bh where parts: "fitsAt measureText textToRender aw ah (Fin s) = (ok, ls, bh)"
      by (cases "fitsAt measureText textToRender aw ah (Fin s)") auto
    then have "\<not> ok"
      using nofit by simp
    then show ?thesis
      using True next_size parts
      by (subst fitFontSize.simps) (simp add: jge_def MIN_RENDER_FONT_SIZE_def jsub_def)
  qed
qed

lemma fitFontSize_no_fit:
  assumes "start \<noteq> PInf"
    and "\<forall>k::nat. jge (jsub start (Fin (real k))) MIN_RENDER_FONT_SIZE
           \<longrightarrow> \<not> fst (fitsAt measureText textToRender aw ah (jsub start (Fin (real k))))"
  shows "fitFontSize measureText textToRender aw ah start = Some None"
proof (cases start)
  case (Fin s)
  obtain n :: nat where "s < 8 + real n"
    using reals_Archimedean2 [of "s - 8"] by (auto simp: algebra_simps)
  moreover have "\<forall>k::nat. 8 \<le> s - real k
       \<longrightarrow> \<not> fst (fitsAt measureText textToRender aw ah (Fin (s - real k)))"
    using assms(2) unfolding Fin by (simp add: jge_def jsub_def MIN_RENDER_FONT_SIZE_def)
  ultimately show ?thesis
    unfolding Fin by (rule fitFontSize_no_fit_Fin)
next
  case PInf
  with assms(1) show ?thesis by simp
next
  case NInf
  then show ?thesis
    by (subst fitFontSize.simps) (simp add: jge_def MIN_RENDER_FONT_SIZE_def)
next
  case NaN
  then show ?thesis
    by (subst fitFontSize.simps) (simp add: jge_def MIN_RENDER_FONT_SIZE_def)
qed

text \<open>
  The font size loop ends from every start size other than \<open>+Infinity\<close>: a finite size
  falls below the minimum after finitely many decrements, and \<open>NaN\<close> and \<open>-Infinity\<close> fail
  the loop test at once.
\<close>

lemma fitFontSize_returns_Fin:
  assumes "s < 8 + real n"
  shows "\<exists>r. fitFontSize measureText textToRender aw ah (Fin s) = Some r"
  using assms
proof (induction n arbitrary: s)
  case 0
  then show ?case
    by (subst fitFontSize.simps) (simp add: jge_def MIN_RENDER_FONT_SIZE_def)
next
  case (Suc n)
  show ?case
  proof (cases "8 \<le> s")
    case False
    then show ?thesis
      by (subst fitFontSize.simps) (simp add: jge_def MIN_RENDER_FONT_SIZE_def)
  next
    case True
    have "s - 1 < 8 + real n"
      using Suc.prems by simp
    then obtain r where next_size: "fitFontSize measureText textToRender aw ah (Fin (s - 1)) = Some r"
      using Suc.IH by blast
    obtain ok ls bh where parts: "fitsAt measureText textToRender aw ah (Fin s) = (ok, ls, bh)"
      by (cases "fitsAt measureText textToRender aw ah (Fin s)") auto
    show ?thesis
      using True next_size parts
      by (subst fitFontSize.simps) (simp add: jge_def MIN_RENDER_FONT_SIZE_def jsub_def)
  qed
qed

lemma fitFontSize_returns:
  assumes "start \<noteq> PInf"
  shows "\<exists>r. fitFontSize measureText textToRender aw ah start = Some r"
proof (cases start)
  case (Fin s)
  obtain n :: nat where "s < 8 + real n"
    using reals_Archimedean2 [of "s - 8"] by (auto simp: algebra_simps)
  then show ?thesis
    unfolding Fin by (rule fitFontSize_returns_Fin)
next
  case PInf
  with assms show ?thesis by simp
next
  case NInf
  then show ?thesis
    by (subst fitFontSize.simps) (simp add: jge_def MIN_RENDER_FONT_SIZE_def)
next
  case NaN
  then show ?thesis
    by (subst fitFontSize.simps) (simp add: jge_def MIN_RENDER_FONT_SIZE_def)
qed

lemma render_returns:
  assumes "startSizeOf res \<noteq> PInf"
  shows "\<exists>ops. renderTextWithDynamicSizing measureText textToRender res w h = Some ops"
proof -
  obtain r where "fitFontSize measureText textToRender (availWidthOf res) (availHeightOf res)
                    (startSizeOf res) = Some r"
    using fitFontSize_returns [OF assms] by blast
  then show ?thesis
    unfolding renderTextWithDynamicSizing_eq by (auto split: option.splits)
qed

text \<open>The scrim block runs before the loop: its draw calls come first, then only text.\<close>

lemma render_scrim_first:
  assumes "renderTextWithDynamicSizing measureText textToRender res w h = Some ops"
  shows "\<exists>texts. ops = scrimOps res @ texts \<and> filter isFillRect texts = []"
  using assms unfolding renderTextWithDynamicSizing_eq
  by (auto simp: textOps_no_rects split: option.splits if_splits)

subsection \<open>Evaluating the rendering on the examples\<close>

lemma tiny_sizes:
  "startSizeOf (resultFor 30 30 ''white'' 21) = Fin 8"
  "availWidthOf (resultFor 30 30 ''white'' 21) = Fin 10"
  "availHeightOf (resultFor 30 30 ''white'' 21) = Fin 10"
  by (simp_all add: startSizeOf_def availWidthOf_def availHeightOf_def resultFor_def jmin_def
        jmax_def jsub_def TEXT_PADDING_def MIN_RENDER_FONT_SIZE_def)

lemma isBlank_Hello: "\<not> isBlank ''Hello''"
  by (simp add: isBlank_def isWhitespace_def)

lemma wrap_Hello: "wrapTextCanvas (halfSizeChars (Fin 8)) ''Hello'' (Fin 10) = [''Hello'']"
  by (simp add: wrapTextCanvas_def isBlank_Hello halfSizeChars_def jgt_def)

lemma fitsAt_Hello: "\<not> fst (fitsAt halfSizeChars ''Hello'' (Fin 10) (Fin 10) (Fin 8))"
  by (simp add: fitsAt_def wrap_Hello Let_def) (simp add: halfSizeChars_def jgt_def)

lemma scrimOps_tiny: "scrimOps (resultFor 30 30 ''white'' 21) = []"
  by (simp add: scrimOps_def needsScrim_def resultFor_def jgt_def
        CONTRAST_THRESHOLD_FOR_SCRIM_def BUSYNESS_THRESHOLD_FOR_SCRIM_def)

lemma fitFontSize_Hello:
  "fitFontSize halfSizeChars ''Hello'' (Fin 10) (Fin 10) (Fin 8) = Some None"
proof -
  have "\<forall>k::nat. 8 \<le> (8::real) - real k
          \<longrightarrow> \<not> fst (fitsAt halfSizeChars ''Hello'' (Fin 10) (Fin 10) (Fin (8 - real k)))"
  proof (intro allI impI)
    fix k :: nat
    assume "8 \<le> (8::real) - real k"
    then have "k = 0" by simp
    then show "\<not> fst (fitsAt halfSizeChars ''Hello'' (Fin 10) (Fin 10) (Fin (8 - real k)))"
      using fitsAt_Hello by simp
  qed
  then show ?thesis
    by (intro fitFontSize_no_fit_Fin [where n = 1]) simp_all
qed

lemma render_Hello:
  "renderTextWithDynamicSizing halfSizeChars ''Hello'' (resultFor 30 30 ''white'' 21)
     (Fin 100) (Fin 100) = Some []"
  unfolding renderTextWithDynamicSizing_eq tiny_sizes
  by (simp add: fitFontSize_Hello scrimOps_tiny jgt_def)

lemma wide_sizes:
  "startSizeOf (resultFor 200 100 ''white'' 3) = Fin 20"
  "availWidthOf (resultFor 200 100 ''white'' 3) = Fin 180"
  "availHeightOf (resultFor 200 100 ''white'' 3) = Fin 80"
  by (simp_all add: startSizeOf_def availWidthOf_def availHeightOf_def resultFor_def jmin_def
        jmax_def jsub_def TEXT_PADDING_def MIN_RENDER_FONT_SIZE_def)

lemma fitFontSize_Hi:
  "fitFontSize halfSizeChars ''Hi'' (Fin 180) (Fin 80) (Fin 20)
     = Some (Some (Fin 20, [''Hi''], Fin 24))"
  by (subst fitFontSize.simps)
    (simp add: fitsAt_def wrapTextCanvas_def isBlank_def isWhitespace_def halfSizeChars_def
      jgt_def jge_def MIN_RENDER_FONT_SIZE_def LINE_HEIGHT_MULTIPLIER_def Let_def)

lemma parseInt_e: "parseInt ''e'' = NaN"
  by (simp add: parseInt_def isWhitespace_def isDigit_def Let_def)

lemma textIsDark_white: "\<not> textIsDark ''white''"
  by (simp add: textIsDark_def substring_def orZero_def parseInt_e getLuminance_def)

lemma scrimOps_wide:
  "scrimOps (resultFor 200 100 ''white'' 3)
     = [FillRect (Rgba ''0,0,0'' (Fin 0.6)) (Fin 0) (Fin 0) (Fin 200) (Fin 100)]"
  by (simp add: scrimOps_def needsScrim_def textIsDark_white Let_def resultFor_def
        CONTRAST_THRESHOLD_FOR_SCRIM_def BUSYNESS_THRESHOLD_FOR_SCRIM_def)

lemma textOps_Hi:
  "textOps (resultFor 200 100 ''white'' 3) (Fin 200) (Fin 100) (Fin 20) [''Hi''] (Fin 24)
     = [FillText (TextColor ''white'') (Fin 20) ''center'' ''Hi'' (Fin 100) (Fin 38)]"
  by (simp add: textOps_def resultFor_def jgt_def jsub_def TEXT_PADDING_def
        LINE_HEIGHT_MULTIPLIER_def Let_def)

lemma render_Hi:
  "renderTextWithDynamicSizing halfSizeChars ''Hi'' (resultFor 200 100 ''white'' 3)
     (Fin 200) (Fin 100)
   = Some [FillRect (Rgba ''0,0,0'' (Fin 0.6)) (Fin 0) (Fin 0) (Fin 200) (Fin 100),
           FillText (TextColor ''white'') (Fin 20) ''center'' ''Hi'' (Fin 100) (Fin 38)]"
  unfolding renderTextWithDynamicSizing_eq wide_sizes
  by (simp add: fitFontSize_Hi scrimOps_wide textOps_Hi jgt_def)

section \<open>Properties of the rendering\<close>

text \<open>
  C4, as the code has it: if the start size of the font size loop is not infinite and the
  wrapped block fits at none of the sizes start, start - 1, ... that are at least the
  minimum size 8, then \<open>renderTextWithDynamicSizing\<close> returns and draws no text at all:
  its draw calls are those of the scrim block, none of which is a text call.
\<close>

theorem render_without_fit_draws_no_text:
  assumes "startSizeOf res \<noteq> PInf"
    and "\<forall>k::nat. jge (jsub (startSizeOf res) (Fin (real k))) MIN_RENDER_FONT_SIZE
           \<longrightarrow> \<not> fst (fitsAt measureText textToRender (availWidthOf res) (availHeightOf res)
                          (jsub (startSizeOf res) (Fin (real k))))"
  shows "renderTextWithDynamicSizing measureText textToRender res w h = Some (scrimOps res)
         \<and> filter isFillText (scrimOps res) = []"
proof -
  have "fitFontSize measureText textToRender (availWidthOf res) (availHeightOf res)
          (startSizeOf res) = Some None"
    using assms by (rule fitFontSize_no_fit)
  then show ?thesis
    unfolding renderTextWithDynamicSizing_eq by (simp add: scrimOps_no_text)
qed

theorem render_without_fit_draws_no_text_witness:
  "startSizeOf (resultFor 30 30 ''white'' 21) \<noteq> PInf
   \<and> \<not> fst (fitsAt halfSizeChars ''Hello'' (availWidthOf (resultFor 30 30 ''white'' 21))
              (availHeightOf (resultFor 30 30 ''white'' 21))
              (startSizeOf (resultFor 30 30 ''white'' 21)))
   \<and> renderTextWithDynamicSizing halfSizeChars ''Hello'' (resultFor 30 30 ''white'' 21)
        (Fin 100) (Fin 100) = Some (scrimOps (resultFor 30 30 ''white'' 21))
   \<and> filter isFillText (scrimOps (resultFor 30 30 ''white'' 21)) = []"
proof -
  let ?res = "resultFor 30 30 ''white'' 21"
  have fin: "startSizeOf ?res \<noteq> PInf"
    by (simp add: tiny_sizes)
  have nofit: "\<not> fst (fitsAt halfSizeChars ''Hello'' (availWidthOf ?res) (availHeightOf ?res)
                       (startSizeOf ?res))"
    unfolding tiny_sizes by (rule fitsAt_Hello)
  have all: "\<forall>k::nat. jge (jsub (startSizeOf ?res) (Fin (real k))) MIN_RENDER_FONT_SIZE
           \<longrightarrow> \<not> fst (fitsAt halfSizeChars ''Hello'' (availWidthOf ?res) (availHeightOf ?res)
                          (jsub (startSizeOf ?res) (Fin (real k))))"
  proof (intro allI impI)
    fix k :: nat
    assume "jge (jsub (startSizeOf ?res) (Fin (real k))) MIN_RENDER_FONT_SIZE"
    then have "k = 0"
      by (simp add: tiny_sizes jge_def jsub_def MIN_RENDER_FONT_SIZE_def)
    then show "\<not> fst (fitsAt halfSizeChars ''Hello'' (availWidthOf ?res) (availHeightOf ?res)
                          (jsub (startSizeOf ?res) (Fin (real k))))"
      using fitsAt_Hello by (simp add: tiny_sizes jsub_def)
  qed
  show ?thesis
    using fin nofit render_without_fit_draws_no_text [OF fin all, of "Fin 100" "Fin 100"]
    by blast
qed

text \<open>
  C4 as the specification states it fails: in a rectangle of 30 by 30 the padded
  interior is 10 by 10, the only font size tried is 8, the word \<open>Hello\<close> is 20 wide there
  and wraps to one overflowing line, and nothing is drawn.
\<close>

theorem render_omits_text_that_does_not_fit:
  "\<not> isBlank ''Hello''
   \<and> jgt (availWidthOf (resultFor 30 30 ''white'' 21)) (Fin 0)
   \<and> jgt (availHeightOf (resultFor 30 30 ''white'' 21)) (Fin 0)
   \<and> startSizeOf (resultFor 30 30 ''white'' 21) = MIN_RENDER_FONT_SIZE
   \<and> wrapTextCanvas (halfSizeChars MIN_RENDER_FONT_SIZE) ''Hello''
        (availWidthOf (resultFor 30 30 ''white'' 21)) = [''Hello'']
   \<and> renderTextWithDynamicSizing halfSizeChars ''Hello'' (resultFor 30 30 ''white'' 21)
        (Fin 100) (Fin 100) = Some []"
  by (simp add: isBlank_Hello tiny_sizes render_Hello wrap_Hello MIN_RENDER_FONT_SIZE_def jgt_def)

text \<open>
  C8: \<open>renderTextWithDynamicSizing\<close> returns for every analysis result whose start font
  size is not \<open>+Infinity\<close>, and whenever it returns, its draw calls are those of the scrim
  block followed by text only, so that a rectangle is among them if and only if
  \<open>textContrastRatio < 4.0\<close> or \<open>rectBusyness > 500\<close>. The scrim block itself, which runs
  before the font size loop, fills a rectangle under that same condition; the rectangle is
  the analysis rectangle in a translucent colour of opacity 0.7 when
  \<open>textContrastRatio < 2.5\<close>, 0.6 when \<open>2.5 \<le> textContrastRatio < 3.5\<close>, and 0.5 otherwise.
\<close>

theorem scrim_drawn_iff:
  "((\<exists>op \<in> set (scrimOps res). isFillRect op)
      \<longleftrightarrow> (jlt (textContrastRatio res) (Fin 4.0) \<or> jgt (rectBusyness res) (Fin 500)))
   \<and> (\<forall>op \<in> set (scrimOps res).
         \<exists>base. op = FillRect
                 (Rgba base
                    (if jlt (textContrastRatio res) (Fin 2.5) then Fin 0.7
                     else if jle (Fin 2.5) (textContrastRatio res)
                             \<and> jlt (textContrastRatio res) (Fin 3.5) then Fin 0.6
                     else Fin 0.5))
                 (rect_x (rect res)) (rect_y (rect res))
                 (rect_width (rect res)) (rect_height (rect res)))
   \<and> (startSizeOf res \<noteq> PInf
        \<longrightarrow> (\<exists>ops. renderTextWithDynamicSizing measureText textToRender res w h = Some ops))
   \<and> (\<forall>ops. renderTextWithDynamicSizing measureText textToRender res w h = Some ops
         \<longrightarrow> filter isFillRect ops = scrimOps res
             \<and> (\<exists>texts. ops = scrimOps res @ texts \<and> filter isFillRect texts = [])
             \<and> ((\<exists>op \<in> set ops. isFillRect op)
                  \<longleftrightarrow> (jlt (textContrastRatio res) (Fin 4.0)
                       \<or> jgt (rectBusyness res) (Fin 500))))"
proof -
  have mid: "jle (Fin 2.5) c \<and> jlt c (Fin 3.5)" if "\<not> jlt c (Fin 2.5)" "jlt c (Fin 3.5)" for c
    using that by (cases c) simp_all
  have "(\<exists>op \<in> set (scrimOps res). isFillRect op) = (scrimOps res \<noteq> [])"
    by (simp add: scrimOps_def Let_def)
  also have "\<dots> = (jlt (textContrastRatio res) (Fin 4.0) \<or> jgt (rectBusyness res) (Fin 500))"
    by (simp add: scrimOps_def needsScrim_def CONTRAST_THRESHOLD_FOR_SCRIM_def
          BUSYNESS_THRESHOLD_FOR_SCRIM_def Let_def)
  finally have iff: "(\<exists>op \<in> set (scrimOps res). isFillRect op)
      = (jlt (textContrastRatio res) (Fin 4.0) \<or> jgt (rectBusyness res) (Fin 500))" .
  have style: "\<exists>base. op = FillRect
                   (Rgba base
                      (if jlt (textContrastRatio res) (Fin 2.5) then Fin 0.7
                       else if jle (Fin 2.5) (textContrastRatio res)
                               \<and> jlt (textContrastRatio res) (Fin 3.5) then Fin 0.6
                       else Fin 0.5))
                   (rect_x (rect res)) (rect_y (rect res))
                   (rect_width (rect res)) (rect_height (rect res))"
    if "op \<in> set (scrimOps res)" for op
    using that mid [of "textContrastRatio res"]
    by (auto simp: scrimOps_def Let_def split: if_splits)
  have returns: "\<exists>ops. renderTextWithDynamicSizing measureText textToRender res w h = Some ops"
    if "startSizeOf res \<noteq> PInf"
    using that by (rule render_returns)
  have rects: "filter isFillRect ops = scrimOps res"
    if "renderTextWithDynamicSizing measureText textToRender res w h = Some ops" for ops
    using that by (rule render_rects)
  have first: "\<exists>texts. ops = scrimOps res @ texts \<and> filter isFillRect texts = []"
    if "renderTextWithDynamicSizing measureText textToRender res w h = Some ops" for ops
    using that by (rule render_scrim_first)
  have drawn: "(\<exists>op \<in> set ops. isFillRect op)
                 = (jlt (textContrastRatio res) (Fin 4.0) \<or> jgt (rectBusyness res) (Fin 500))"
    if "renderTextWithDynamicSizing measureText textToRender res w h = Some ops" for ops
  proof -
    have "(\<exists>op \<in> set ops. isFillRect op) = (filter isFillRect ops \<noteq> [])"
      by (simp add: filter_empty_conv)
    also have "\<dots> = (\<exists>op \<in> set (scrimOps res). isFillRect op)"
      unfolding rects [OF that] by (simp add: scrimOps_def Let_def)
    finally show ?thesis
      unfolding iff .
  qed
  show ?thesis
    using iff style returns rects first drawn by (intro conjI allI impI ballI) blast+
qed

theorem scrim_drawn_iff_witness:
  "startSizeOf (resultFor 200 100 ''white'' 3) \<noteq> PInf
   \<and> renderTextWithDynamicSizing halfSizeChars ''Hi'' (resultFor 200 100 ''white'' 3)
       (Fin 200) (Fin 100)
     = Some [FillRect (Rgba ''0,0,0'' (Fin 0.6)) (Fin 0) (Fin 0) (Fin 200) (Fin 100),
             FillText (TextColor ''white'') (Fin 20) ''center'' ''Hi'' (Fin 100) (Fin 38)]
   \<and> scrimOps (resultFor 200 100 ''white'' 3)
       = [FillRect (Rgba ''0,0,0'' (Fin 0.6)) (Fin 0) (Fin 0) (Fin 200) (Fin 100)]
   \<and> jlt (textContrastRatio (resultFor 200 100 ''white'' 3)) (Fin 4.0)
   \<and> jle (Fin 2.5) (textContrastRatio (resultFor 200 100 ''white'' 3))
   \<and> jlt (textContrastRatio (resultFor 200 100 ''white'' 3)) (Fin 3.5)"
proof -
  note th = scrim_drawn_iff [of "resultFor 200 100 ''white'' 3" halfSizeChars "''Hi''"
      "Fin 200" "Fin 100"]
  have start: "startSizeOf (resultFor 200 100 ''white'' 3) \<noteq> PInf"
    by (simp add: wide_sizes)
  have "\<exists>ops. renderTextWithDynamicSizing halfSizeChars ''Hi'' (resultFor 200 100 ''white'' 3)
                (Fin 200) (Fin 100) = Some ops"
    using th start by blast
  have "filter isFillRect
          [FillRect (Rgba ''0,0,0'' (Fin 0.6)) (Fin 0) (Fin 0) (Fin 200) (Fin 100),
           FillText (TextColor ''white'') (Fin 20) ''center'' ''Hi'' (Fin 100) (Fin 38)]
        = scrimOps (resultFor 200 100 ''white'' 3)"
    using th render_Hi by blast
  then have ops: "scrimOps (resultFor 200 100 ''white'' 3)
       = [FillRect (Rgba ''0,0,0'' (Fin 0.6)) (Fin 0) (Fin 0) (Fin 200) (Fin 100)]"
    by simp
  have "jlt (textContrastRatio (resultFor 200 100 ''white'' 3)) (Fin 4.0)
        \<or> jgt (rectBusyness (resultFor 200 100 ''white'' 3)) (Fin 500)"
    using th ops by simp
  then have "jlt (textContrastRatio (resultFor 200 100 ''white'' 3)) (Fin 4.0)"
    by (simp add: resultFor_def jgt_def)
  then show ?thesis
    by (intro conjI start render_Hi ops) (simp_all add: resultFor_def)
qed

text \<open>
  C9 fails on the code for a text colour whose channels do not all have three digits: the
  text colour \<open>rgb(5, 255, 255)\<close>, as the analysis prints it, is light (luminance 180.25),
  but the substrings at the fixed offsets 4, 9 and 14 parse to 5, 5 and 5, so the text
  counts as dark and the scrim is white.
\<close>

theorem scrim_white_under_light_text:
  "textColorObject ''rgb(5, 255, 255)'' = \<lparr>red = Fin 5, green = Fin 255, blue = Fin 255\<rparr>
   \<and> \<not> jlt (getLuminance (Fin 5) (Fin 255) (Fin 255)) (Fin 128)
   \<and> textIsDark ''rgb(5, 255, 255)''
   \<and> scrimOps (resultFor 200 100 ''rgb(5, 255, 255)'' 3)
       = [FillRect (Rgba ''255,255,255'' (Fin 0.6)) (Fin 0) (Fin 0) (Fin 200) (Fin 100)]"
proof -
  have obj: "textColorObject ''rgb(5, 255, 255)'' = \<lparr>red = Fin 5, green = Fin 255, blue = Fin 255\<rparr>"
    by (simp add: textColorObject_def matchRgbAt_def isDigit_def isWhitespace_def parseInt_def
          digitValue_def jint_def Let_def)
  have light: "\<not> jlt (getLuminance (Fin 5) (Fin 255) (Fin 255)) (Fin 128)"
    by (simp add: getLuminance_def)
  have dark: "textIsDark ''rgb(5, 255, 255)''"
    by (simp add: textIsDark_def substring_def orZero_def parseInt_def isDigit_def
          isWhitespace_def digitValue_def jint_def getLuminance_def Let_def)
  have ops: "scrimOps (resultFor 200 100 ''rgb(5, 255, 255)'' 3)
       = [FillRect (Rgba ''255,255,255'' (Fin 0.6)) (Fin 0) (Fin 0) (Fin 200) (Fin 100)]"
    using dark
    by (simp add: scrimOps_def needsScrim_def resultFor_def Let_def
          CONTRAST_THRESHOLD_FOR_SCRIM_def BUSYNESS_THRESHOLD_FOR_SCRIM_def)
  show ?thesis
    by (intro conjI obj light dark ops)
qed

section \<open>The analysis never raises\<close>

lemma length_computeCellStats:
  "length (computeCellStats data imgWidth cw ch gridCfg) = nat (rows gridCfg) * nat (cols gridCfg)"
  by (simp add: computeCellStats_def length_concat comp_def sum_list_triv)

lemma computeCellStats_empty:
  assumes "rows gridCfg \<le> 0 \<or> cols gridCfg \<le> 0"
  shows "computeCellStats data imgWidth cw ch gridCfg = []"
  using length_computeCellStats [of data imgWidth cw ch gridCfg] assms by auto

lemma rectCellIndices_member:
  assumes "i \<in> set (rectCellIndices sh gridCols r0 c0)"
  obtains ro co where "i = (r0 + ro) * gridCols + (c0 + co)"
    and "0 \<le> ro" and "ro < rows sh" and "0 \<le> co" and "co < cols sh"
  using assms unfolding rectCellIndices_def by auto

lemma cell_index_in_range:
  fixes a d R C :: int
  assumes "0 \<le> a" "a < R" "0 \<le> d" "d < C"
  shows "0 \<le> a * C + d \<and> nat (a * C + d) < nat R * nat C"
proof -
  have C: "0 \<le> C" and R: "0 \<le> R"
    using assms by auto
  have "a * C \<le> (R - 1) * C"
    using assms C by (intro mult_right_mono) auto
  then have up: "a * C + d < R * C"
    using assms by (simp add: algebra_simps)
  have low: "0 \<le> a * C + d"
    using assms C by simp
  have "nat (a * C + d) < nat (R * C)"
    using up low by simp
  then show ?thesis
    using low R by (simp add: nat_mult_distrib)
qed

lemma indicesInRange_grid:
  assumes "0 \<le> border" and "length cellStats = nat (rows gridCfg) * nat (cols gridCfg)"
  shows "indicesInRange cellStats gridCfg border sh"
proof -
  have "0 \<le> i \<and> nat i < length cellStats"
    if pos: "pos \<in> set (positionsToScan sh gridCfg border)"
      and i: "i \<in> set (rectCellIndices sh (cols gridCfg) (fst pos) (snd pos))" for pos i
  proof -
    obtain ro co where i_eq: "i = (fst pos + ro) * cols gridCfg + (snd pos + co)"
      and ro: "0 \<le> ro" "ro < rows sh" and co: "0 \<le> co" "co < cols sh"
      using i by (rule rectCellIndices_member)
    have bounds: "border \<le> fst pos" "fst pos \<le> rows gridCfg - rows sh - border"
      "border \<le> snd pos" "snd pos \<le> cols gridCfg - cols sh - border"
      using pos unfolding set_positionsToScan by auto
    have "0 \<le> fst pos + ro" "fst pos + ro < rows gridCfg"
      "0 \<le> snd pos + co" "snd pos + co < cols gridCfg"
      using bounds ro co assms(1) by auto
    then show ?thesis
      unfolding i_eq assms(2) by (rule cell_index_in_range)
  qed
  then show ?thesis
    by (auto simp: indicesInRange_def list_all_iff)
qed

lemma scanPositions_no_throw:
  assumes "list_all (\<lambda>pos. list_all (\<lambda>i. 0 \<le> i \<and> nat i < length cellStats)
                       (rectCellIndices sh (cols gridCfg) (fst pos) (snd pos))) qs"
  shows "\<exists>st'. scanPositions sh cellStats gridCfg cw ch qs st = Inr st'"
  using assms
proof (induction qs arbitrary: st)
  case Nil
  show ?case by simp
next
  case (Cons q qs)
  have range: "list_all (\<lambda>i. 0 \<le> i \<and> nat i < length cellStats)
                 (rectCellIndices sh (cols gridCfg) (fst q) (snd q))"
    using Cons.prems by simp
  have "\<exists>st1. tryPosition sh cellStats gridCfg cw ch q st = Inr st1"
    by (simp add: tryPosition_eq [OF range])
  then obtain st1 where "tryPosition sh cellStats gridCfg cw ch q st = Inr st1" ..
  moreover obtain st' where "scanPositions sh cellStats gridCfg cw ch qs st1 = Inr st'"
    using Cons.IH [of st1] Cons.prems by auto
  ultimately show ?case by simp
qed

lemma findBestRectForGivenShape_no_throw:
  assumes "indicesInRange cellStats gridCfg border sh"
  shows "\<exists>res. findBestRectForGivenShape sh cellStats gridCfg cw ch border = Inr res"
proof -
  obtain st' where "scanPositions sh cellStats gridCfg cw ch
      (positionsToScan sh gridCfg border) (None, PInf) = Inr st'"
    using scanPositions_no_throw [of cellStats sh gridCfg "positionsToScan sh gridCfg border"]
      assms unfolding indicesInRange_def by blast
  then show ?thesis
    by (simp add: findBestRectForGivenShape_def)
qed

lemma bestOverShapes_no_throw:
  assumes "\<forall>sh \<in> set shapes. indicesInRange cellStats gridCfg border sh"
  shows "\<exists>res. bestOverShapes cellStats gridCfg cw ch border shapes overall = Inr res"
  using assms
proof (induction shapes arbitrary: overall)
  case Nil
  show ?case by simp
next
  case (Cons sh rest)
  obtain r where r: "findBestRectForGivenShape sh cellStats gridCfg cw ch border = Inr r"
    using findBestRectForGivenShape_no_throw [where cw = cw and ch = ch and sh = sh
        and cellStats = cellStats and gridCfg = gridCfg and border = border] Cons.prems
    by auto
  obtain res where "bestOverShapes cellStats gridCfg cw ch border rest (mergeBest overall r) = Inr res"
    using Cons.IH [of "mergeBest overall r"] Cons.prems by auto
  then show ?case
    unfolding bestOverShapes_step r by simp
qed

lemma bestOverShapes_none_fit:
  assumes "\<forall>sh \<in> set shapes. \<not> shapeFits sh gridCfg border"
  shows "bestOverShapes cellStats gridCfg cw ch border shapes overall = Inr overall"
  using assms
proof (induction shapes arbitrary: overall)
  case Nil
  show ?case by simp
next
  case (Cons sh rest)
  have "findBestRectForGivenShape sh cellStats gridCfg cw ch border = Inr None"
    using Cons.prems by (simp add: findBestRectForGivenShape_def shapeFits_def)
  then show ?case
    unfolding bestOverShapes_step using Cons by (simp add: mergeBest_def)
qed

lemma bestContrastCell_no_throw:
  assumes "list_all (\<lambda>i. 0 \<le> i \<and> nat i < length cellStats) idx"
  shows "\<exists>st'. bestContrastCell cellStats bg idx st = Inr st'"
  using assms by (induction idx arbitrary: st) (auto simp: Let_def)

lemma chooseTextColor_no_throw:
  assumes "list_all (\<lambda>i. 0 \<le> i \<and> nat i < length cellStats)
             (rectCellIndices (shape best) (cols gridCfg) (rStart best) (cStart best))"
  shows "\<exists>colour. chooseTextColor useAvg cellStats gridCfg best = Inr colour"
proof -
  obtain st' where "bestContrastCell cellStats (rectAvgColor best)
      (rectCellIndices (shape best) (cols gridCfg) (rStart best) (cStart best)) (None, Fin 0)
      = Inr st'"
    using bestContrastCell_no_throw [OF assms] by blast
  then show ?thesis
    by (cases st') (auto simp: chooseTextColor_def Let_def split: option.splits)
qed

lemma best_indices_in_range:
  assumes "bestOverShapes cellStats gridCfg cw ch border shapes None = Inr (Some best)"
    and "\<forall>sh \<in> set shapes. indicesInRange cellStats gridCfg border sh"
  shows "list_all (\<lambda>i. 0 \<le> i \<and> nat i < length cellStats)
           (rectCellIndices (shape best) (cols gridCfg) (rStart best) (cStart best))"
proof -
  have "firstMin (rectAvgBusyness cellStats (cols gridCfg)) (testedPairs shapes gridCfg border)
          (shape best, (rStart best, cStart best)) (avgBusyness best)"
    using bestOverShapes_firstMin [OF assms(1)] by simp
  then have "(shape best, (rStart best, cStart best)) \<in> set (testedPairs shapes gridCfg border)"
    by (auto simp: firstMin_def)
  then have "shape best \<in> set shapes"
    and "(rStart best, cStart best) \<in> set (positionsToScan (shape best) gridCfg border)"
    by (simp_all add: testedPairs_member)
  then show ?thesis
    using assms(2) by (auto simp: indicesInRange_def list_all_iff)
qed

text \<open>No shape is generated within bounds that leave no room.\<close>

lemma generateShapesToTest_no_room:
  assumes "maxRows \<le> 0 \<or> maxCols \<le> 0"
  shows "generateShapesToTest targetArea maxRows maxCols = []"
proof -
  obtain shapes where inv: "shapes_inv targetArea maxRows maxCols shapes"
    and gen: "generateShapesToTest targetArea maxRows maxCols = map snd shapes"
    using shapes_inv_generate by blast
  have "shapes = []"
  proof (cases shapes)
    case Nil
    then show ?thesis .
  next
    case (Cons e rest)
    then have "shape_ok targetArea maxRows maxCols e"
      using inv by (simp add: shapes_inv_def)
    then show ?thesis
      using assms by (auto simp: shape_ok_def)
  qed
  then show ?thesis
    using gen by simp
qed

text \<open>\<open>analyzeImageCore\<close> by cases, on the hover data and the result of the search.\<close>

lemma analyzeImageCore_eq:
  "analyzeImageCore imageData gridCfg targetArea useAvg border =
     (if img_width imageData = 0 \<or> img_height imageData = 0
      then Inr \<lparr>analysisResultData = None, analysisDataForHover = None\<rparr>
      else if generateShapesToTest targetArea (rows gridCfg - 2 * border)
                (cols gridCfg - 2 * border) = []
      then Inr \<lparr>analysisResultData = None,
                analysisDataForHover = Some (hoverDataOf imageData gridCfg)\<rparr>
      else
        (case bestOverShapes (hover_stats (hoverDataOf imageData gridCfg)) gridCfg
                (hover_cellWidthPx (hoverDataOf imageData gridCfg))
                (hover_cellHeightPx (hoverDataOf imageData gridCfg)) border
                (generateShapesToTest targetArea (rows gridCfg - 2 * border)
                   (cols gridCfg - 2 * border)) None of
           Inl e \<Rightarrow> Inl e
         | Inr None \<Rightarrow>
             Inr \<lparr>analysisResultData = None,
                  analysisDataForHover = Some (hoverDataOf imageData gridCfg)\<rparr>
         | Inr (Some best) \<Rightarrow>
             (case chooseTextColor useAvg (hover_stats (hoverDataOf imageData gridCfg)) gridCfg
                     best of
                Inl e \<Rightarrow> Inl e
              | Inr colour \<Rightarrow>
                  Inr \<lparr>analysisResultData = Some (makeAnalysisResult best colour),
                       analysisDataForHover = Some (hoverDataOf imageData gridCfg)\<rparr>)))"
  by (simp add: analyzeImageCore_def hoverDataOf_def Let_def
        cong: sum.case_cong option.case_cong)

lemma hover_stats_length:
  "length (hover_stats (hoverDataOf imageData gridCfg)) = nat (rows gridCfg) * nat (cols gridCfg)"
  by (simp add: hoverDataOf_def Let_def length_computeCellStats)

lemma analyzeImageCore_no_throw:
  assumes "0 \<le> border"
  shows "\<exists>res. analyzeImageCore imageData gridCfg targetArea useAvg border = Inr res"
proof -
  let ?stats = "hover_stats (hoverDataOf imageData gridCfg)"
  let ?cw = "hover_cellWidthPx (hoverDataOf imageData gridCfg)"
  let ?ch = "hover_cellHeightPx (hoverDataOf imageData gridCfg)"
  let ?shapes = "generateShapesToTest targetArea (rows gridCfg - 2 * border)
                   (cols gridCfg - 2 * border)"
  have range: "\<forall>sh \<in> set ?shapes. indicesInRange ?stats gridCfg border sh"
    using indicesInRange_grid [OF assms hover_stats_length] by blast
  obtain r where r: "bestOverShapes ?stats gridCfg ?cw ?ch border ?shapes None = Inr r"
    using bestOverShapes_no_throw [OF range] by blast
  show ?thesis
  proof (cases r)
    case None
    then show ?thesis
      unfolding analyzeImageCore_eq using r by simp
  next
    case (Some best)
    have "list_all (\<lambda>i. 0 \<le> i \<and> nat i < length ?stats)
            (rectCellIndices (shape best) (cols gridCfg) (rStart best) (cStart best))"
      using r Some range by (intro best_indices_in_range [where shapes = ?shapes]) auto
    then obtain colour where "chooseTextColor useAvg ?stats gridCfg best = Inr colour"
      using chooseTextColor_no_throw by blast
    then show ?thesis
      unfolding analyzeImageCore_eq using r Some by simp
  qed
qed

lemma analyzeImageCore_onePixel_no_rows:
  "analyzeImageCore onePixel \<lparr>rows = 0, cols = 10\<rparr> 12 False 0 =
     Inr \<lparr>analysisResultData = None,
          analysisDataForHover =
            Some \<lparr>hover_stats = [], hover_gridConfig = \<lparr>rows = 0, cols = 10\<rparr>,
                  hover_cellWidthPx = Fin (1 / 10), hover_cellHeightPx = PInf,
                  hover_canvasWidth = 1, hover_canvasHeight = 1\<rparr>\<rparr>"
proof -
  have shapes: "generateShapesToTest 12 (rows \<lparr>rows = 0, cols = 10\<rparr> - 2 * 0)
                  (cols \<lparr>rows = 0, cols = 10\<rparr> - 2 * 0) = []"
    by (rule generateShapesToTest_no_room) simp
  have hover: "hoverDataOf onePixel \<lparr>rows = 0, cols = 10\<rparr> =
      \<lparr>hover_stats = [], hover_gridConfig = \<lparr>rows = 0, cols = 10\<rparr>,
       hover_cellWidthPx = Fin (1 / 10), hover_cellHeightPx = PInf,
       hover_canvasWidth = 1, hover_canvasHeight = 1\<rparr>"
    by (simp add: hoverDataOf_def onePixel_def computeCellStats_empty jint_def inf_of_sign_def)
  show ?thesis
    unfolding analyzeImageCore_eq shapes hover by (simp add: onePixel_def)
qed

section \<open>Null results of the analysis\<close>

text \<open>
  C5, as the code has it: for a border exclusion of at least zero and a target area of at
  least one, \<open>analyzeImageCore\<close> never raises. For a pixel buffer of zero width or height
  it returns a null analysis result and null hover data. Otherwise it computes the hover
  data, and returns a null analysis result together with that hover data when a grid
  dimension is not positive (the hover statistics are then empty), when the shape
  generator yields no shape, when no generated shape fits the bounded grid, or when the
  search finds no rectangle.
\<close>

theorem analyzeImageCore_null_outcomes:
  assumes "0 \<le> border" and "1 \<le> targetArea"
  shows "(\<exists>res. analyzeImageCore imageData gridCfg targetArea useAvg border = Inr res)
   \<and> (img_width imageData = 0 \<or> img_height imageData = 0 \<longrightarrow>
        analyzeImageCore imageData gridCfg targetArea useAvg border
          = Inr \<lparr>analysisResultData = None, analysisDataForHover = None\<rparr>)
   \<and> (img_width imageData \<noteq> 0 \<and> img_height imageData \<noteq> 0
        \<and> (rows gridCfg \<le> 0 \<or> cols gridCfg \<le> 0) \<longrightarrow>
        analyzeImageCore imageData gridCfg targetArea useAvg border
          = Inr \<lparr>analysisResultData = None,
                 analysisDataForHover = Some (hoverDataOf imageData gridCfg)\<rparr>
        \<and> hover_stats (hoverDataOf imageData gridCfg) = [])
   \<and> (img_width imageData \<noteq> 0 \<and> img_height imageData \<noteq> 0
        \<and> (generateShapesToTest targetArea (rows gridCfg - 2 * border)
                (cols gridCfg - 2 * border) = []
            \<or> (\<forall>sh \<in> set (generateShapesToTest targetArea (rows gridCfg - 2 * border)
                              (cols gridCfg - 2 * border)).
                  \<not> shapeFits sh gridCfg border)
            \<or> bestOverShapes (hover_stats (hoverDataOf imageData gridCfg)) gridCfg
                 (hover_cellWidthPx (hoverDataOf imageData gridCfg))
                 (hover_cellHeightPx (hoverDataOf imageData gridCfg)) border
                 (generateShapesToTest targetArea (rows gridCfg - 2 * border)
                    (cols gridCfg - 2 * border)) None = Inr None) \<longrightarrow>
        analyzeImageCore imageData gridCfg targetArea useAvg border
          = Inr \<lparr>analysisResultData = None,
                 analysisDataForHover = Some (hoverDataOf imageData gridCfg)\<rparr>)"
proof -
  let ?shapes = "generateShapesToTest targetArea (rows gridCfg - 2 * border)
                   (cols gridCfg - 2 * border)"
  let ?null = "Inr \<lparr>analysisResultData = None,
                     analysisDataForHover = Some (hoverDataOf imageData gridCfg)\<rparr>
               :: js_error + ImageAnalysisCoreResult"
  have total: "\<exists>res. analyzeImageCore imageData gridCfg targetArea useAvg border = Inr res"
    using assms(1) by (rule analyzeImageCore_no_throw)
  have zero: "analyzeImageCore imageData gridCfg targetArea useAvg border
          = Inr \<lparr>analysisResultData = None, analysisDataForHover = None\<rparr>"
    if "img_width imageData = 0 \<or> img_height imageData = 0"
    unfolding analyzeImageCore_eq using that by auto
  have none: "analyzeImageCore imageData gridCfg targetArea useAvg border = ?null"
    if "img_width imageData \<noteq> 0 \<and> img_height imageData \<noteq> 0"
      and "bestOverShapes (hover_stats (hoverDataOf imageData gridCfg)) gridCfg
                 (hover_cellWidthPx (hoverDataOf imageData gridCfg))
                 (hover_cellHeightPx (hoverDataOf imageData gridCfg)) border ?shapes None
             = Inr None"
    unfolding analyzeImageCore_eq using that by simp
  have empty: "analyzeImageCore imageData gridCfg targetArea useAvg border = ?null"
    if "img_width imageData \<noteq> 0 \<and> img_height imageData \<noteq> 0" and "?shapes = []"
    unfolding analyzeImageCore_eq using that by simp
  have nofit: "analyzeImageCore imageData gridCfg targetArea useAvg border = ?null"
    if "img_width imageData \<noteq> 0 \<and> img_height imageData \<noteq> 0"
      and "\<forall>sh \<in> set ?shapes. \<not> shapeFits sh gridCfg border"
    using that(1) bestOverShapes_none_fit [OF that(2)] by (intro none) auto
  have grid: "analyzeImageCore imageData gridCfg targetArea useAvg border = ?null
              \<and> hover_stats (hoverDataOf imageData gridCfg) = []"
    if "img_width imageData \<noteq> 0 \<and> img_height imageData \<noteq> 0"
      and "rows gridCfg \<le> 0 \<or> cols gridCfg \<le> 0"
  proof -
    have "rows gridCfg - 2 * border \<le> 0 \<or> cols gridCfg - 2 * border \<le> 0"
      using that(2) assms(1) by auto
    then have "?shapes = []"
      by (rule generateShapesToTest_no_room)
    moreover have "hover_stats (hoverDataOf imageData gridCfg) = []"
      using that(2) by (simp add: hoverDataOf_def Let_def computeCellStats_empty)
    ultimately show ?thesis
      using empty [OF that(1)] by simp
  qed
  show ?thesis
    using total zero grid empty nofit none by blast
qed

theorem analyzeImageCore_null_outcomes_witness:
  "(0::int) \<le> 0 \<and> (1::int) \<le> 12
   \<and> analyzeImageCore emptyImage \<lparr>rows = 10, cols = 10\<rparr> 12 False 0
       = Inr \<lparr>analysisResultData = None, analysisDataForHover = None\<rparr>
   \<and> analyzeImageCore onePixel \<lparr>rows = 10, cols = 0\<rparr> 12 False 0
       = Inr \<lparr>analysisResultData = None,
              analysisDataForHover = Some (hoverDataOf onePixel \<lparr>rows = 10, cols = 0\<rparr>)\<rparr>
   \<and> hover_stats (hoverDataOf onePixel \<lparr>rows = 10, cols = 0\<rparr>) = []"
proof -
  have b: "(0::int) \<le> 0" and t: "(1::int) \<le> 12"
    by simp_all
  note th = analyzeImageCore_null_outcomes [OF b t]
  have zero: "analyzeImageCore emptyImage \<lparr>rows = 10, cols = 10\<rparr> 12 False 0
       = Inr \<lparr>analysisResultData = None, analysisDataForHover = None\<rparr>"
    using th [of emptyImage "\<lparr>rows = 10, cols = 10\<rparr>" False] by (simp add: emptyImage_def)
  have grid: "analyzeImageCore onePixel \<lparr>rows = 10, cols = 0\<rparr> 12 False 0
       = Inr \<lparr>analysisResultData = None,
              analysisDataForHover = Some (hoverDataOf onePixel \<lparr>rows = 10, cols = 0\<rparr>)\<rparr>
     \<and> hover_stats (hoverDataOf onePixel \<lparr>rows = 10, cols = 0\<rparr>) = []"
    using th [of onePixel "\<lparr>rows = 10, cols = 0\<rparr>" False] by (simp add: onePixel_def)
  show ?thesis
    using b t zero grid by blast
qed

text \<open>
  C5 as the specification states it fails for a grid without rows: the analysis of
  a one-pixel image does not abort with null hover data; it returns the hover data, with
  no statistics and an infinite cell height.
\<close>

theorem analyzeImageCore_no_rows_returns_hover:
  "analyzeImageCore onePixel \<lparr>rows = 0, cols = 10\<rparr> 12 False 0 =
     Inr \<lparr>analysisResultData = None,
          analysisDataForHover =
            Some \<lparr>hover_stats = [], hover_gridConfig = \<lparr>rows = 0, cols = 10\<rparr>,
                  hover_cellWidthPx = Fin (1 / 10), hover_cellHeightPx = PInf,
                  hover_canvasWidth = 1, hover_canvasHeight = 1\<rparr>\<rparr>
   \<and> analyzeImageCore onePixel \<lparr>rows = 0, cols = 10\<rparr> 12 False 0
       \<noteq> Inr \<lparr>analysisResultData = None, analysisDataForHover = None\<rparr>"
  unfolding analyzeImageCore_onePixel_no_rows by simp

section \<open>The uniform black image\<close>

subsection \<open>Cell statistics\<close>

lemma nth_black_pixels:
  assumes "n < 4 * k" and "n mod 4 \<noteq> 3"
  shows "concat (replicate k [0, 0, 0, 255 :: nat]) ! n = 0"
  using assms
proof (induction k arbitrary: n)
  case 0
  then show ?case by simp
next
  case (Suc k)
  show ?case
  proof (cases "n < 4")
    case True
    then have "n = 0 \<or> n = 1 \<or> n = 2 \<or> n = 3"
      by auto
    then show ?thesis
      using Suc.prems(2) by auto
  next
    case False
    then have "n - 4 < 4 * k" and "(n - 4) mod 4 \<noteq> 3"
      using Suc.prems by presburger+
    then have "concat (replicate k [0, 0, 0, 255 :: nat]) ! (n - 4) = 0"
      by (rule Suc.IH)
    then show ?thesis
      using False by (simp add: nth_append eval_nat_numeral)
  qed
qed

lemma pixelByte_black:
  assumes "0 \<le> i" and "i < 40000" and "i mod 4 \<noteq> 3"
  shows "pixelByte (img_data blackImage) i = Fin 0"
proof -
  have "int (nat i mod 4) = i mod 4"
    using assms(1) by (simp add: zmod_int)
  then have "nat i < 4 * 10000" and "nat i mod 4 \<noteq> 3"
    using assms by auto
  then have "concat (replicate 10000 [0, 0, 0, 255 :: nat]) ! nat i = 0"
    by (rule nth_black_pixels)
  then show ?thesis
    using assms by (simp add: pixelByte_def blackImage_def length_concat sum_list_replicate)
qed

lemma foldl_jadd_zero:
  assumes "\<forall>x \<in> set xs. f x = Fin 0"
  shows "foldl jadd (Fin 0) (map f xs) = Fin 0"
  using assms by (induction xs) simp_all

lemma foldl_squares_zero:
  assumes "\<forall>x \<in> set xs. x = Fin 0"
  shows "foldl (\<lambda>acc l. jadd acc (jmul (jsub l (Fin 0)) (jsub l (Fin 0)))) (Fin 0) xs = Fin 0"
  using assms by (induction xs) (simp_all add: jsub_def)

lemma cellPixels_black:
  "cellPixels 100 10 10 r0 c0 =
     concat (map (\<lambda>y. map (\<lambda>x. (y * 100 + x) * 4) [10 * c0 .. 10 * c0 + 9])
                 [10 * r0 .. 10 * r0 + 9])"
proof -
  have fl: "\<lfloor>real_of_int c0 * 10\<rfloor> = 10 * c0" "\<lfloor>real_of_int r0 * 10\<rfloor> = 10 * r0"
    "\<lfloor>real_of_int (c0 + 1) * 10\<rfloor> = 10 * c0 + 10"
    "\<lfloor>real_of_int (r0 + 1) * 10\<rfloor> = 10 * r0 + 10"
    by (simp_all add: floor_unique)
  have en: "10 * c0 + (10 * c0 + 10 - 10 * c0) - 1 = 10 * c0 + 9"
    "10 * r0 + (10 * r0 + 10 - 10 * r0) - 1 = 10 * r0 + 9"
    by simp_all
  show ?thesis
    unfolding cellPixels_def Let_def fl en by simp
qed

lemma concat_map_upto_member:
  assumes "i \<in> set (concat (map (\<lambda>y. map (\<lambda>x. f y x) [a .. a']) [c .. c']))"
  obtains y x :: int where "i = f y x" and "c \<le> y" and "y \<le> c'" and "a \<le> x" and "x \<le> a'"
  using assms by auto

lemma concat_replicate_replicate:
  "concat (replicate n (replicate m x)) = replicate (n * m) x"
  by (induction n) (simp_all add: replicate_add)

lemma computeCellStat_black:
  assumes "0 \<le> r0" "r0 \<le> 9" "0 \<le> c0" "c0 \<le> 9"
  shows "computeCellStat (img_data blackImage) 100 (Fin 10) (Fin 10) r0 c0 = plainCell 0"
proof -
  let ?idx = "cellPixels 100 10 10 r0 c0"
  let ?data = "img_data blackImage"
  have len: "length ?idx = 100"
    unfolding cellPixels_black by (simp add: length_concat comp_def sum_list_triv)
  have mem: "0 \<le> i \<and> i + 2 < 40000 \<and> i mod 4 = 0" if member: "i \<in> set ?idx" for i
  proof -
    obtain y x where i: "i = (y * 100 + x) * 4"
      and y: "10 * r0 \<le> y" "y \<le> 10 * r0 + 9" and x: "10 * c0 \<le> x" "x \<le> 10 * c0 + 9"
      using member unfolding cellPixels_black by (rule concat_map_upto_member)
    show ?thesis
      unfolding i using y x assms by auto
  qed
  have bytes: "pixelByte ?data i = Fin 0 \<and> pixelByte ?data (i + 1) = Fin 0
               \<and> pixelByte ?data (i + 2) = Fin 0" if "i \<in> set ?idx" for i
  proof -
    have m: "0 \<le> i" "i + 2 < 40000" "i mod 4 = 0"
      using mem [OF that] by auto
    have "(i + 1) mod 4 = 1" "(i + 2) mod 4 = 2"
      using m(3) by presburger+
    then show ?thesis
      using m by (intro conjI pixelByte_black) auto
  qed
  have sums: "foldl jadd (Fin 0) (map (\<lambda>i. pixelByte ?data i) ?idx) = Fin 0"
    "foldl jadd (Fin 0) (map (\<lambda>i. pixelByte ?data (i + 1)) ?idx) = Fin 0"
    "foldl jadd (Fin 0) (map (\<lambda>i. pixelByte ?data (i + 2)) ?idx) = Fin 0"
    using bytes by (simp_all add: foldl_jadd_zero)
  have lum: "\<forall>i \<in> set ?idx. getLuminance (pixelByte ?data i) (pixelByte ?data (i + 1))
                               (pixelByte ?data (i + 2)) = Fin 0"
    using bytes by (simp add: getLuminance_def)
  have lumsum: "foldl jadd (Fin 0)
      (map (\<lambda>i. getLuminance (pixelByte ?data i) (pixelByte ?data (i + 1))
                  (pixelByte ?data (i + 2))) ?idx) = Fin 0"
    using lum by (rule foldl_jadd_zero)
  have squares: "foldl (\<lambda>acc l. jadd acc (jmul (jsub l (Fin 0)) (jsub l (Fin 0)))) (Fin 0)
      (map (\<lambda>i. getLuminance (pixelByte ?data i) (pixelByte ?data (i + 1))
                  (pixelByte ?data (i + 2))) ?idx) = Fin 0"
    using lum by (intro foldl_squares_zero) auto
  have ne: "?idx \<noteq> []"
    using len by auto
  show ?thesis
    by (simp add: computeCellStat_def Let_def len ne sums lumsum squares plainCell_def)
qed

lemma blackImage_stats:
  "computeCellStats (img_data blackImage) 100 (Fin 10) (Fin 10) \<lparr>rows = 10, cols = 10\<rparr>
     = replicate 100 (plainCell 0)"
proof -
  have "map (\<lambda>c0. computeCellStat (img_data blackImage) 100 (Fin 10) (Fin 10) r0 c0) [0 .. 9]
        = replicate 10 (plainCell 0)" if "r0 \<in> set [0 .. 9]" for r0
  proof -
    have "map (\<lambda>c0. computeCellStat (img_data blackImage) 100 (Fin 10) (Fin 10) r0 c0) [0 .. 9]
          = map (\<lambda>c0. plainCell 0) [0 .. 9]"
      using that by (intro map_cong refl computeCellStat_black) auto
    then show ?thesis
      by (simp add: map_replicate_const)
  qed
  then have "map (\<lambda>r0. map (\<lambda>c0. computeCellStat (img_data blackImage) 100 (Fin 10) (Fin 10) r0 c0)
                            [0 .. 9]) [0 .. 9]
             = map (\<lambda>r0. replicate 10 (plainCell 0)) [0 .. 9]"
    by (intro map_cong refl) auto
  then show ?thesis
    by (simp add: computeCellStats_def map_replicate_const concat_replicate_replicate)
qed

lemma blackImage_hover:
  "hoverDataOf blackImage \<lparr>rows = 10, cols = 10\<rparr> =
     \<lparr>hover_stats = replicate 100 (plainCell 0), hover_gridConfig = \<lparr>rows = 10, cols = 10\<rparr>,
      hover_cellWidthPx = Fin 10, hover_cellHeightPx = Fin 10,
      hover_canvasWidth = 100, hover_canvasHeight = 100\<rparr>"
proof -
  have "img_width blackImage = 100" "img_height blackImage = 100"
    by (simp_all add: blackImage_def)
  then show ?thesis
    by (simp add: hoverDataOf_def Let_def jint_def blackImage_stats)
qed

subsection \<open>The search on equal cells\<close>

lemma length_rectCellIndices:
  "length (rectCellIndices sh gridCols r0 c0) = nat (rows sh) * nat (cols sh)"
  by (simp add: rectCellIndices_def length_concat comp_def sum_list_triv)

lemma rectTotals_plain:
  assumes "list_all (\<lambda>i. 0 \<le> i \<and> nat i < n) (rectCellIndices sh gridCols (fst pos) (snd pos))"
  shows "rectTotals (replicate n (plainCell 0)) sh gridCols pos
           = (Fin 0, Fin 0, Fin 0, Fin 0, nat (rows sh) * nat (cols sh))"
proof -
  have "\<forall>i \<in> set (rectCellIndices sh gridCols (fst pos) (snd pos)).
          replicate n (plainCell 0) ! nat i = plainCell 0"
    using assms by (simp add: list_all_iff)
  then show ?thesis
    by (simp add: rectTotals_def Let_def foldl_jadd_zero plainCell_def length_rectCellIndices)
qed

lemma rectAvgBusyness_plain:
  assumes "list_all (\<lambda>i. 0 \<le> i \<and> nat i < n)
             (rectCellIndices (fst p) gridCols (fst (snd p)) (snd (snd p)))"
    and "1 \<le> rows (fst p)" and "1 \<le> cols (fst p)"
  shows "rectAvgBusyness (replicate n (plainCell 0)) gridCols p = Fin 0"
proof -
  have "\<forall>i \<in> set (rectCellIndices (fst p) gridCols (fst (snd p)) (snd (snd p))).
          replicate n (plainCell 0) ! nat i = plainCell 0"
    using assms(1) by (simp add: list_all_iff)
  moreover have "nat (rows (fst p)) * nat (cols (fst p)) \<noteq> 0"
    using assms(2,3) by simp
  ultimately show ?thesis
    by (simp add: rectAvgBusyness_def Let_def foldl_jadd_zero plainCell_def
          length_rectCellIndices)
qed

lemma firstMin_constant:
  assumes "firstMin f (p0 # ps) k v" and "\<forall>p \<in> set (p0 # ps). f p = c"
  shows "k = p0"
proof -
  from assms(1) obtain pre post where sp: "p0 # ps = pre @ k # post"
    and pre: "list_all (\<lambda>p. f p \<noteq> v) pre" and v: "f k = v"
    unfolding firstMin_def by blast
  have "k \<in> set (p0 # ps)"
    unfolding sp by simp
  then have "v = c"
    using assms(2) v by blast
  have "pre = []"
  proof (cases pre)
    case Nil
    then show ?thesis .
  next
    case (Cons q qs)
    then have "q \<in> set (p0 # ps)" and "f q \<noteq> v"
      using sp pre by auto
    then show ?thesis
      using assms(2) \<open>v = c\<close> by blast
  qed
  then show ?thesis
    using sp by simp
qed

lemma indicesInRange_at:
  assumes "indicesInRange cellStats gridCfg border sh"
    and "(r0, c0) \<in> set (positionsToScan sh gridCfg border)"
  shows "list_all (\<lambda>i. 0 \<le> i \<and> nat i < length cellStats)
           (rectCellIndices sh (cols gridCfg) r0 c0)"
proof -
  have "\<forall>pos \<in> set (positionsToScan sh gridCfg border).
          list_all (\<lambda>i. 0 \<le> i \<and> nat i < length cellStats)
            (rectCellIndices sh (cols gridCfg) (fst pos) (snd pos))"
    using assms(1) unfolding indicesInRange_def by (simp only: list_all_iff)
  from this [rule_format, OF assms(2)] show ?thesis
    by simp
qed

lemma testedPairs_black:
  "\<exists>ps. testedPairs (generateShapesToTest 12 10 10) \<lparr>rows = 10, cols = 10\<rparr> 0
         = (\<lparr>rows = 3, cols = 4, name = ''square''\<rparr>, (0, 0)) # ps"
  by (simp add: generateShapesToTest_12_10_10 testedPairs_def shapeFits_def positionsToScan_def
        upto_rec1)

lemma bestOverShapes_black:
  "bestOverShapes (replicate 100 (plainCell 0)) \<lparr>rows = 10, cols = 10\<rparr> (Fin 10) (Fin 10) 0
     (generateShapesToTest 12 10 10) None =
   Inr (Some \<lparr>rect_x = Fin 0, rect_y = Fin 0, rect_width = Fin 40, rect_height = Fin 30,
              rectAvgColor = \<lparr>red = Fin 0, green = Fin 0, blue = Fin 0\<rparr>,
              rStart = 0, cStart = 0, avgBusyness = Fin 0,
              shape = \<lparr>rows = 3, cols = 4, name = ''square''\<rparr>\<rparr>)"
proof -
  let ?stats = "replicate 100 (plainCell 0)"
  let ?grid = "\<lparr>rows = 10, cols = 10\<rparr>"
  let ?shapes = "generateShapesToTest 12 10 10"
  let ?first = "(\<lparr>rows = 3, cols = 4, name = ''square''\<rparr>, (0::int, 0::int))"
  have range: "indicesInRange ?stats ?grid 0 sh" for sh :: ShapeToFind
    by (rule indicesInRange_grid) simp_all
  obtain res where res: "bestOverShapes ?stats ?grid (Fin 10) (Fin 10) 0 ?shapes None = Inr res"
    using bestOverShapes_no_throw [of ?shapes ?stats ?grid 0] range by blast
  obtain ps where pairs: "testedPairs ?shapes ?grid 0 = ?first # ps"
    using testedPairs_black by blast
  have avg: "rectAvgBusyness ?stats (cols ?grid) p = Fin 0"
    if "p \<in> set (testedPairs ?shapes ?grid 0)" for p
  proof -
    obtain sh pos where p: "p = (sh, pos)"
      by (cases p) auto
    have sh: "sh \<in> set ?shapes" and pos: "pos \<in> set (positionsToScan sh ?grid 0)"
      using that testedPairs_member unfolding p by blast+
    have "list_all (\<lambda>i. 0 \<le> i \<and> nat i < 100)
            (rectCellIndices sh (cols ?grid) (fst pos) (snd pos))"
      using indicesInRange_at [OF range, of "fst pos" "snd pos" sh] pos by simp
    moreover have "1 \<le> rows sh \<and> 1 \<le> cols sh"
      using sh by (auto simp: generateShapesToTest_12_10_10)
    ultimately show ?thesis
      unfolding p by (intro rectAvgBusyness_plain) simp_all
  qed
  have inv: "searchInv (rectAvgBusyness ?stats (cols ?grid))
               (rectInfoAt ?stats ?grid (Fin 10) (Fin 10)) ([] @ testedPairs ?shapes ?grid 0) res"
    by (rule bestOverShapes_inv [OF res]) (simp add: searchInv_def)
  have "res \<noteq> None"
  proof
    assume "res = None"
    then have "\<not> jlt (rectAvgBusyness ?stats (cols ?grid) ?first) PInf"
      using inv pairs by (simp add: searchInv_def)
    moreover have "rectAvgBusyness ?stats (cols ?grid) ?first = Fin 0"
      by (rule avg) (simp add: pairs)
    ultimately show False by simp
  qed
  then obtain best where best: "res = Some best"
    by auto
  have fm: "best = rectInfoAt ?stats ?grid (Fin 10) (Fin 10) (shape best, (rStart best, cStart best))"
    "firstMin (rectAvgBusyness ?stats (cols ?grid)) (testedPairs ?shapes ?grid 0)
       (shape best, (rStart best, cStart best)) (avgBusyness best)"
    using bestOverShapes_firstMin [OF res [unfolded best]] by simp_all
  have "(shape best, (rStart best, cStart best)) = ?first"
    using fm(2) avg unfolding pairs by (intro firstMin_constant [where c = "Fin 0"]) auto
  then have at: "best = rectInfoAt ?stats ?grid (Fin 10) (Fin 10) ?first"
    using fm(1) by simp
  have "(0, 0) \<in> set (positionsToScan \<lparr>rows = 3, cols = 4, name = ''square''\<rparr> ?grid 0)"
    unfolding set_positionsToScan by simp
  then have "list_all (\<lambda>i. 0 \<le> i \<and> nat i < 100)
          (rectCellIndices \<lparr>rows = 3, cols = 4, name = ''square''\<rparr> 10 0 0)"
    using indicesInRange_at [OF range] by fastforce
  then have "rectTotals ?stats \<lparr>rows = 3, cols = 4, name = ''square''\<rparr> 10 (0, 0)
             = (Fin 0, Fin 0, Fin 0, Fin 0, 12)"
    using rectTotals_plain [of 100 "\<lparr>rows = 3, cols = 4, name = ''square''\<rparr>" 10 "(0, 0)"]
    by simp
  then have "rectInfoAt ?stats ?grid (Fin 10) (Fin 10) ?first =
      \<lparr>rect_x = Fin 0, rect_y = Fin 0, rect_width = Fin 40, rect_height = Fin 30,
       rectAvgColor = \<lparr>red = Fin 0, green = Fin 0, blue = Fin 0\<rparr>,
       rStart = 0, cStart = 0, avgBusyness = Fin 0,
       shape = \<lparr>rows = 3, cols = 4, name = ''square''\<rparr>\<rparr>"
    by (simp add: rectInfoAt_def makeRect_def jint_def)
  then show ?thesis
    using res best at by simp
qed

section \<open>The analysis of the uniform black image\<close>

text \<open>
  C1: for the 100 by 100 image of black pixels, a grid of 10 by 10 cells, a target area
  of 12, no border exclusion and the black-or-white text colour, \<open>analyzeImageCore\<close>
  returns an analysis result with \<open>rectBusyness = 0\<close>, \<open>textColor = "white"\<close>,
  \<open>avgBackgroundColor = {0, 0, 0}\<close> and \<open>textContrastRatio = 21\<close>; the rectangle has the
  first generated shape for area 12 (3 rows, 4 columns, named square) and is the one the
  search places at \<open>rStart = 0\<close>, \<open>cStart = 0\<close>, hence at \<open>x = 0\<close>, \<open>y = 0\<close>.
\<close>

theorem analyzeImageCore_black_image:
  "analyzeImageCore blackImage \<lparr>rows = 10, cols = 10\<rparr> 12 False 0 =
     Inr \<lparr>analysisResultData =
            Some \<lparr>rect = \<lparr>rect_x = Fin 0, rect_y = Fin 0, rect_width = Fin 40,
                          rect_height = Fin 30\<rparr>,
                  textColor = ''white'', fontSize = Fin 12,
                  avgBackgroundColor = \<lparr>red = Fin 0, green = Fin 0, blue = Fin 0\<rparr>,
                  aspectRatioName = Some ''square'', actualCells = \<lparr>rows = 3, cols = 4\<rparr>,
                  rectBusyness = Fin 0, textContrastRatio = Fin 21\<rparr>,
          analysisDataForHover = Some (hoverDataOf blackImage \<lparr>rows = 10, cols = 10\<rparr>)\<rparr>
   \<and> hd (generateShapesToTest 12 10 10) = \<lparr>rows = 3, cols = 4, name = ''square''\<rparr>
   \<and> map_sum id (map_option (\<lambda>best. (shape best, rStart best, cStart best)))
       (bestOverShapes (hover_stats (hoverDataOf blackImage \<lparr>rows = 10, cols = 10\<rparr>))
          \<lparr>rows = 10, cols = 10\<rparr> (Fin 10) (Fin 10) 0 (generateShapesToTest 12 10 10) None)
       = Inr (Some (\<lparr>rows = 3, cols = 4, name = ''square''\<rparr>, 0, 0))"
proof -
  let ?best = "\<lparr>rect_x = Fin 0, rect_y = Fin 0, rect_width = Fin 40, rect_height = Fin 30,
              rectAvgColor = \<lparr>red = Fin 0, green = Fin 0, blue = Fin 0\<rparr>,
              rStart = 0, cStart = 0, avgBusyness = Fin 0,
              shape = \<lparr>rows = 3, cols = 4, name = ''square''\<rparr>\<rparr>"
  have shapes: "generateShapesToTest 12 (rows \<lparr>rows = 10, cols = 10\<rparr> - 2 * 0)
                  (cols \<lparr>rows = 10, cols = 10\<rparr> - 2 * 0) = generateShapesToTest 12 10 10"
    by simp
  have ne: "generateShapesToTest 12 10 10 \<noteq> []"
    by (simp add: generateShapesToTest_12_10_10)
  have search: "bestOverShapes (hover_stats (hoverDataOf blackImage \<lparr>rows = 10, cols = 10\<rparr>))
      \<lparr>rows = 10, cols = 10\<rparr>
      (hover_cellWidthPx (hoverDataOf blackImage \<lparr>rows = 10, cols = 10\<rparr>))
      (hover_cellHeightPx (hoverDataOf blackImage \<lparr>rows = 10, cols = 10\<rparr>)) 0
      (generateShapesToTest 12 10 10) None = Inr (Some ?best)"
    using bestOverShapes_black by (simp add: blackImage_hover)
  have colour: "chooseTextColor False (hover_stats (hoverDataOf blackImage \<lparr>rows = 10, cols = 10\<rparr>))
      \<lparr>rows = 10, cols = 10\<rparr> ?best = Inr ''white''"
    by (simp add: chooseTextColor_def blackOrWhite_def getLuminance_def jgt_def)
  have result: "makeAnalysisResult ?best ''white'' =
      \<lparr>rect = \<lparr>rect_x = Fin 0, rect_y = Fin 0, rect_width = Fin 40, rect_height = Fin 30\<rparr>,
       textColor = ''white'', fontSize = Fin 12,
       avgBackgroundColor = \<lparr>red = Fin 0, green = Fin 0, blue = Fin 0\<rparr>,
       aspectRatioName = Some ''square'', actualCells = \<lparr>rows = 3, cols = 4\<rparr>,
       rectBusyness = Fin 0, textContrastRatio = Fin 21\<rparr>"
    by (simp add: makeAnalysisResult_def textColorObject_def calculateContrastRatio_def
          getLuminance_def jmin_def jmax_def jint_def Let_def)
  have size: "img_width blackImage \<noteq> 0 \<and> img_height blackImage \<noteq> 0"
    by (simp add: blackImage_def)
  have main: "analyzeImageCore blackImage \<lparr>rows = 10, cols = 10\<rparr> 12 False 0 =
     Inr \<lparr>analysisResultData = Some (makeAnalysisResult ?best ''white''),
          analysisDataForHover = Some (hoverDataOf blackImage \<lparr>rows = 10, cols = 10\<rparr>)\<rparr>"
    unfolding analyzeImageCore_eq shapes using size ne search colour by simp
  have first: "hd (generateShapesToTest 12 10 10) = \<lparr>rows = 3, cols = 4, name = ''square''\<rparr>"
    by (simp add: generateShapesToTest_12_10_10)
  have placed: "map_sum id (map_option (\<lambda>best. (shape best, rStart best, cStart best)))
       (bestOverShapes (hover_stats (hoverDataOf blackImage \<lparr>rows = 10, cols = 10\<rparr>))
          \<lparr>rows = 10, cols = 10\<rparr> (Fin 10) (Fin 10) 0 (generateShapesToTest 12 10 10) None)
       = Inr (Some (\<lparr>rows = 3, cols = 4, name = ''square''\<rparr>, 0, 0))"
    using bestOverShapes_black by (simp add: blackImage_hover)
  show ?thesis
    using main result first placed by simp
qed

end
